theory Spec2Isabelle
  imports
    Complex_Main
    "HOL-Library.AList"
    "HOL-Library.Char_ord"
    "HOL-Library.List_Lexorder"
    "HOL-Library.Product_Lexorder"
begin

section \<open>Adaptive backoff of the automation agent\<close>

text \<open>
  The rate-limit state of \<^verbatim>\<open>WebFormAutomationAgent\<close> (\<^verbatim>\<open>automation_agent.py\<close>,
  \<^verbatim>\<open>__init__\<close>): the count of recent 429 signals, the time stamp of the first one in
  the current window (\<^verbatim>\<open>None\<close> before any signal), the circuit flag and the base delay.
  Python's unbounded \<^verbatim>\<open>int\<close> is \<^typ>\<open>int\<close>. Python's \<^verbatim>\<open>float\<close> seconds are
  modelled by \<^typ>\<open>real\<close>: rounding of the binary floating-point operations is outside
  the model.
\<close>

record backoff_state =
  recent_429 :: int
  first_429_ts :: "real option"
  circuit_open :: bool
  rate_backoff_base :: real

text \<open>\<^verbatim>\<open>__init__\<close>: base 0.5 s, or 0.25 s in fast mode.\<close>

definition init_backoff :: "bool \<Rightarrow> backoff_state" where
  "init_backoff fast_mode =
     \<lparr> recent_429 = 0, first_429_ts = None, circuit_open = False,
       rate_backoff_base = (if fast_mode then 0.25 else 0.5) \<rparr>"

text \<open>
  \<^verbatim>\<open>random.uniform(a, b)\<close> is \<^verbatim>\<open>a + (b - a) * random()\<close>; the draw \<open>u\<close> of
  \<^verbatim>\<open>random()\<close> is an input of the model.
\<close>

definition uniform :: "real \<Rightarrow> real \<Rightarrow> real \<Rightarrow> real" where
  "uniform a b u = a + (b - a) * u"

text \<open>Lines 37-40 of \<^verbatim>\<open>_compute_backoff\<close>: the window test and reset.\<close>

definition window_expired :: "backoff_state \<Rightarrow> real \<Rightarrow> bool" where
  "window_expired s now =
     (case first_429_ts s of None \<Rightarrow> True | Some ts \<Rightarrow> now - ts > 60)"

definition reset_window :: "backoff_state \<Rightarrow> real \<Rightarrow> backoff_state" where
  "reset_window s now =
     (if window_expired s now
      then s\<lparr> recent_429 := 0, first_429_ts := Some now, circuit_open := False \<rparr>
      else s)"

text \<open>
  Lines 44-49: the delay before jitter, as a function of the base and of the count
  after the increment.
\<close>

definition backoff_before_jitter :: "real \<Rightarrow> int \<Rightarrow> real" where
  "backoff_before_jitter base c =
     (let exponent = min (max (c - 1) 0) 6;
          backoff = base * 2 ^ nat exponent
      in if c \<ge> 5 then max backoff 10 else backoff)"

text \<open>
  \<^verbatim>\<open>_compute_backoff\<close>, with the reading of the clock \<open>now\<close> and the random draw \<open>u\<close>
  as arguments; it returns the delay and the updated state.
\<close>

definition compute_backoff :: "backoff_state \<Rightarrow> real \<Rightarrow> real \<Rightarrow> real \<times> backoff_state" where
  "compute_backoff s now u =
     (let s1 = reset_window s now;
          c = recent_429 s1 + 1;
          s2 = s1\<lparr> recent_429 := c \<rparr>;
          backoff = backoff_before_jitter (rate_backoff_base s2) c;
          s3 = (if c \<ge> 5 then s2\<lparr> circuit_open := True \<rparr> else s2);
          jitter = uniform 0 (min 1.0 (backoff * 0.1)) u
      in (backoff + jitter, s3))"

text \<open>
  A run of overload signals: each signal is a pair of the clock reading and the random
  draw of that call; the delays are collected in call order.
\<close>

fun signals :: "backoff_state \<Rightarrow> (real \<times> real) list \<Rightarrow> real list \<times> backoff_state" where
  "signals s [] = ([], s)"
| "signals s ((now, u) # rest) =
     (let (d, s') = compute_backoff s now u;
          (ds, s'') = signals s' rest
      in (d # ds, s''))"

section \<open>Activity records\<close>

text \<open>
  An activity is a Python \<^verbatim>\<open>dict\<close> decoded from JSON. Its values are modelled by
  \<open>pyval\<close> (\<^verbatim>\<open>None\<close>, booleans, integers, strings and lists; JSON numbers with a
  fraction and nested objects do not occur in the fields the code reads). Python strings
  are modelled by \<^typ>\<open>string\<close> with one \<^typ>\<open>char\<close> per character; the model covers
  the ASCII texts, whose characters are below code point 128.

  A \<^verbatim>\<open>dict\<close> keeps its keys in insertion order and an assignment to a key that is
  present keeps the key's position: it is an association list with
  \<^const>\<open>AList.update\<close> as the assignment.
\<close>

datatype pyval = PNone | PBool bool | PInt int | PStr string | PList "pyval list"

type_synonym pydict = "(string \<times> pyval) list"

text \<open>\<^verbatim>\<open>d.get(k)\<close>, with \<^const>\<open>None\<close> for an absent key, and \<^verbatim>\<open>d[k] = v\<close>.\<close>

definition dict_get :: "pydict \<Rightarrow> string \<Rightarrow> pyval option" where
  "dict_get d k = map_of d k"

definition dict_set :: "pydict \<Rightarrow> string \<Rightarrow> pyval \<Rightarrow> pydict" where
  "dict_set d k v = AList.update k v d"

text \<open>
  Python's truth value of a value (\<^verbatim>\<open>not v\<close>, \<^verbatim>\<open>if v\<close>): \<^verbatim>\<open>None\<close>, \<^verbatim>\<open>False\<close>,
  \<^verbatim>\<open>0\<close>, the empty string and the empty list are false.
\<close>

fun truthy :: "pyval \<Rightarrow> bool" where
  "truthy PNone = False"
| "truthy (PBool b) = b"
| "truthy (PInt i) = (i \<noteq> 0)"
| "truthy (PStr s) = (s \<noteq> [])"
| "truthy (PList l) = (l \<noteq> [])"

subsection \<open>Key normalization (\<^verbatim>\<open>orchestrator.py\<close>, \<^verbatim>\<open>_normalize_activity_keys\<close>)\<close>

text \<open>The table \<^verbatim>\<open>mapping\<close> of legacy names and \<^verbatim>\<open>mapping.get(k, k)\<close>.\<close>

definition mapping :: "(string \<times> string) list" where
  "mapping =
     [(''Activity Type'', ''Category''),
      (''Primary Technology Area'', ''Main Technology''),
      (''Additional Technology Areas'', ''Additional Technologies''),
      (''Private Description'', ''Internal Notes''),
      (''Number of Views'', ''Views''),
      (''Activity URL'', ''URL''),
      (''Target Audience'', ''Audience''),
      (''Published Date'', ''Date'')]"

definition canonical_key :: "string \<Rightarrow> string" where
  "canonical_key k = (case map_of mapping k of None \<Rightarrow> k | Some c \<Rightarrow> c)"

text \<open>
  The loop over \<^verbatim>\<open>activity.items()\<close> writes each value under its canonical key into a
  new \<^verbatim>\<open>dict\<close> (a later item overwrites an earlier one with the same canonical key);
  then \<^verbatim>\<open>Quantity\<close> is set to 1 when it is absent, \<^verbatim>\<open>None\<close> or the empty string
  (\<^verbatim>\<open>act.get('Quantity') in (None, "")\<close>).
\<close>

definition normalize_activity_keys :: "pydict \<Rightarrow> pydict" where
  "normalize_activity_keys activity =
     (let act = fold (\<lambda>(k, v) act. dict_set act (canonical_key k) v) activity []
      in if dict_get act ''Quantity'' = None
            \<or> dict_get act ''Quantity'' = Some PNone
            \<or> dict_get act ''Quantity'' = Some (PStr '''')
         then dict_set act ''Quantity'' (PInt 1)
         else act)"

section \<open>Python string operations\<close>

text \<open>
  The operations of \<^verbatim>\<open>str\<close> and \<^verbatim>\<open>re\<close> that the code uses, on characters below code
  point 128. Characters from 128 on are left unchanged by \<open>lower\<close> and count neither as
  white space nor as word characters here; texts with such characters are outside the
  model.
\<close>

text \<open>\<^verbatim>\<open>str.isspace\<close> on ASCII: tab, line feed, VT, FF, CR, FS, GS, RS, US and space.\<close>

definition is_space :: "char \<Rightarrow> bool" where
  "is_space c = (let n = (of_char c :: nat) in (9 \<le> n \<and> n \<le> 13) \<or> (28 \<le> n \<and> n \<le> 32))"

text \<open>\<^verbatim>\<open>s.strip()\<close>.\<close>

definition strip :: "string \<Rightarrow> string" where
  "strip s = rev (dropWhile is_space (rev (dropWhile is_space s)))"

text \<open>\<^verbatim>\<open>s.lower()\<close>.\<close>

definition lower_char :: "char \<Rightarrow> char" where
  "lower_char c =
     (let n = (of_char c :: nat) in if 65 \<le> n \<and> n \<le> 90 then char_of (n + 32) else c)"

definition lower :: "string \<Rightarrow> string" where
  "lower s = map lower_char s"

text \<open>The regular expression class \<^verbatim>\<open>\w\<close>: letters, digits and the underscore.\<close>

definition is_word_char :: "char \<Rightarrow> bool" where
  "is_word_char c =
     (let n = (of_char c :: nat)
      in (48 \<le> n \<and> n \<le> 57) \<or> (65 \<le> n \<and> n \<le> 90) \<or> n = 95 \<or> (97 \<le> n \<and> n \<le> 122))"

text \<open>
  \<^verbatim>\<open>re.findall(r"\w+", s)\<close>: the maximal runs of word characters, from left to right.
  The first argument holds the run being read, reversed.
\<close>

fun findall_words_acc :: "string \<Rightarrow> string \<Rightarrow> string list" where
  "findall_words_acc cur [] = (if cur = [] then [] else [rev cur])"
| "findall_words_acc cur (c # cs) =
     (if is_word_char c then findall_words_acc (c # cur) cs
      else if cur = [] then findall_words_acc [] cs
      else rev cur # findall_words_acc [] cs)"

definition findall_words :: "string \<Rightarrow> string list" where
  "findall_words s = findall_words_acc [] s"

text \<open>\<^verbatim>\<open>sub in s\<close> for strings: \<open>sub\<close> occurs in \<open>s\<close> as a contiguous run.\<close>

fun contains :: "string \<Rightarrow> string \<Rightarrow> bool" where
  "contains sub [] = (sub = [])"
| "contains sub (c # cs) = (take (length sub) (c # cs) = sub \<or> contains sub cs)"

text \<open>\<^verbatim>\<open>s.endswith(('.', '!', '?'))\<close>.\<close>

definition ends_with_punct :: "string \<Rightarrow> bool" where
  "ends_with_punct s = (s \<noteq> [] \<and> last s \<in> {CHR ''.'', CHR ''!'', CHR ''?''})"

text \<open>
  \<^verbatim>\<open>s.rfind(c, 0, end)\<close> for a one-character \<open>c\<close> and \<open>end \<ge> 0\<close>: the highest index
  below \<open>end\<close> (and below the length) that holds \<open>c\<close>, or \<^verbatim>\<open>-1\<close>.
\<close>

fun rfind_from :: "char \<Rightarrow> string \<Rightarrow> nat \<Rightarrow> int" where
  "rfind_from c s 0 = -1"
| "rfind_from c s (Suc i) = (if s ! i = c then int i else rfind_from c s i)"

definition rfind :: "char \<Rightarrow> string \<Rightarrow> nat \<Rightarrow> int" where
  "rfind c s e = rfind_from c s (min e (length s))"

section \<open>The technology chooser (\<^verbatim>\<open>automation_agent.py\<close>, \<^verbatim>\<open>_choose_tech_areas\<close>)\<close>

text \<open>
  The option set \<^verbatim>\<open>{'primary': [...], 'additional': [...]}\<close>. The code reads it with
  \<^verbatim>\<open>tech_options.get(key) or []\<close>, so an absent key is the empty list. Options are
  strings; the empty string is a possible entry.
\<close>

record tech_options =
  primary :: "string list"
  additional :: "string list"

text \<open>
  The set \<^verbatim>\<open>tokens\<close> of the stripped title and description, and \<^verbatim>\<open>score(opt)\<close>:
  the size of the overlap plus the number of the option's tokens that are in
  \<^verbatim>\<open>tokens\<close>.
\<close>

definition text_tokens :: "string \<Rightarrow> string \<Rightarrow> string set" where
  "text_tokens title description =
     set (findall_words (lower (strip title @ '' '' @ strip description)))"

definition score :: "string set \<Rightarrow> string \<Rightarrow> int" where
  "score tokens opt =
     (let otoks = set (findall_words (lower opt));
          overlap = card (tokens \<inter> otoks)
      in int overlap + int (card {t \<in> otoks. t \<in> tokens}))"

text \<open>
  \<^verbatim>\<open>xs.sort(reverse=True)\<close> on a list of \<^verbatim>\<open>(score, opt)\<close> tuples. Python compares
  tuples lexicographically and strings by code point, which is the order of
  \<^typ>\<open>int \<times> string\<close> here. Two tuples that compare equal are the same tuple, so the
  list in descending order is unique and stability adds nothing.
\<close>

definition sort_reverse :: "(int \<times> string) list \<Rightarrow> (int \<times> string) list" where
  "sort_reverse xs = rev (sort xs)"

text \<open>
  The two loops that fill \<^verbatim>\<open>additional_choices\<close>: append an option that is not in the
  list yet, and stop as soon as the list has two entries.
\<close>

fun take_distinct :: "string list \<Rightarrow> string list \<Rightarrow> string list" where
  "take_distinct acc [] = acc"
| "take_distinct acc (opt # rest) =
     (let acc' = (if opt \<in> set acc then acc else acc @ [opt])
      in if length acc' \<ge> 2 then acc' else take_distinct acc' rest)"

text \<open>The last loop: the same, skipping empty strings.\<close>

fun take_distinct_nonempty :: "string list \<Rightarrow> string list \<Rightarrow> string list" where
  "take_distinct_nonempty acc [] = acc"
| "take_distinct_nonempty acc (a # rest) =
     (if a = [] then take_distinct_nonempty acc rest
      else let acc' = (if a \<in> set acc then acc else acc @ [a])
           in if length acc' \<ge> 2 then acc' else take_distinct_nonempty acc' rest)"

text \<open>\<^verbatim>\<open>while len(xs) < 2: xs.append("")\<close>.\<close>

definition pad_two :: "string list \<Rightarrow> string list" where
  "pad_two xs = xs @ replicate (2 - length xs) []"

text \<open>
  The list the main choice is taken from (\<^verbatim>\<open>primary_opts\<close> after the fallback to the
  additional list), and \<^verbatim>\<open>primary_choice\<close> before \<^verbatim>\<open>None\<close> becomes the empty string.
\<close>

definition primary_opts :: "tech_options \<Rightarrow> string list" where
  "primary_opts topts =
     (if primary topts = [] \<and> additional topts \<noteq> [] then additional topts else primary topts)"

definition primary_choice :: "string set \<Rightarrow> tech_options \<Rightarrow> string option" where
  "primary_choice tokens topts =
     (let scored_primary = sort_reverse (map (\<lambda>opt. (score tokens opt, opt)) (primary_opts topts))
      in if scored_primary \<noteq> [] \<and> fst (hd scored_primary) > 0 then Some (snd (hd scored_primary))
         else if primary_opts topts \<noteq> [] then Some (hd (primary_opts topts))
         else if additional topts \<noteq> [] then Some (hd (additional topts))
         else None)"

text \<open>\<^verbatim>\<open>candidates_for_add\<close> without the main choice, scored and sorted.\<close>

definition scored_add :: "string set \<Rightarrow> tech_options \<Rightarrow> (int \<times> string) list" where
  "scored_add tokens topts =
     (let candidates_for_add =
            additional topts @ filter (\<lambda>opt. opt \<notin> set (additional topts)) (primary_opts topts)
      in sort_reverse
           (map (\<lambda>opt. (score tokens opt, opt))
              (filter (\<lambda>opt. Some opt \<noteq> primary_choice tokens topts) candidates_for_add)))"

definition additional_choices :: "string set \<Rightarrow> tech_options \<Rightarrow> string list" where
  "additional_choices tokens topts =
     (let chosen = take_distinct [] (map snd (scored_add tokens topts));
          pool = filter (\<lambda>opt. Some opt \<noteq> primary_choice tokens topts)
                   (additional topts @ primary_opts topts);
          chosen = (if length chosen < 2 then take_distinct chosen pool else chosen)
      in pad_two chosen)"

definition choose_tech_areas :: "string \<Rightarrow> string \<Rightarrow> tech_options \<Rightarrow> string \<times> string list" where
  "choose_tech_areas title description topts =
     (let tokens = text_tokens title description;
          main = (case primary_choice tokens topts of None \<Rightarrow> [] | Some p \<Rightarrow> p);
          cleaned_additional = take_distinct_nonempty [] (additional_choices tokens topts)
      in (main, pad_two cleaned_additional))"

text \<open>
  The tie-break of the specification, for comparison with the code: the first option
  in list order among those with the highest score.
\<close>

fun spec_first_best :: "(string \<Rightarrow> int) \<Rightarrow> string list \<Rightarrow> string option" where
  "spec_first_best f [] = None"
| "spec_first_best f (x # xs) =
     (case spec_first_best f xs of
        None \<Rightarrow> Some x
      | Some y \<Rightarrow> if f y > f x then Some y else Some x)"

section \<open>Character limits (\<^verbatim>\<open>orchestrator.py\<close>, \<^verbatim>\<open>enforce_char_limits\<close>)\<close>

text \<open>
  The cache \<^verbatim>\<open>_CacheStore.data\<close> maps a section and a key to a JSON value;
  \<^verbatim>\<open>get\<close> returns \<^verbatim>\<open>None\<close> for an absent section or key. Writing the file in
  \<^verbatim>\<open>save\<close> does not change the data in memory and swallows its own failures, so it
  has no counterpart here.
\<close>

type_synonym cache_store = "string \<times> string \<Rightarrow> pyval option"

definition cache_get :: "cache_store \<Rightarrow> string \<Rightarrow> string \<Rightarrow> pyval option" where
  "cache_get c section key = c (section, key)"

definition cache_set :: "cache_store \<Rightarrow> string \<Rightarrow> string \<Rightarrow> pyval \<Rightarrow> cache_store" where
  "cache_set c section key v = c((section, key) \<mapsto> v)"

text \<open>
  The text-generation collaborator \<^verbatim>\<open>self._desc_agent.arun(prompt)\<close>: it raises, or
  returns a response whose \<^verbatim>\<open>content\<close> is a string or \<^verbatim>\<open>None\<close>. It is a function
  of the prompt here. \<^verbatim>\<open>_hash\<close> (SHA-256 over the parts) is a parameter \<open>hash\<close>.
\<close>

datatype gen_result = GenRaises | GenContent "string option"

definition desc_prompt :: "string \<Rightarrow> string" where
  "desc_prompt desc =
     ''Rewrite the following to coherent simple English under 850 characters (hard limit).\<newline>''
     @ ''No em-dashes, no markdown, no lists, no ellipses; end with a complete sentence. Plain text only.\<newline>\<newline>''
     @ ''Text:\<newline>'' @ desc"

text \<open>
  Both branches cut a text \<open>s\<close> in the same way, with an index limit \<open>e\<close>: at the last
  full stop below \<open>e\<close>, else at the last space below \<open>e\<close>, else at \<open>e\<close>; the cut text
  is stripped and a full stop is appended unless it ends with \<^verbatim>\<open>.\<close>, \<^verbatim>\<open>!\<close> or
  \<^verbatim>\<open>?\<close>.
\<close>

definition cut_at :: "string \<Rightarrow> nat \<Rightarrow> string" where
  "cut_at s e =
     (let cutoff = rfind CHR ''.'' s e;
          cutoff = (if cutoff = -1 then rfind CHR '' '' s e else cutoff);
          new_desc = strip (take (if cutoff \<noteq> -1 then nat cutoff else e) s)
      in if \<not> ends_with_punct new_desc then new_desc @ ''.'' else new_desc)"

text \<open>
  The \<^verbatim>\<open>try\<close> branch: the stripped reply (\<^verbatim>\<open>None\<close> counts as the empty string), cut
  with the limit 850 only when it is longer than 850 characters.
\<close>

definition rewritten_reply :: "string option \<Rightarrow> string" where
  "rewritten_reply content =
     (let new_desc = strip (case content of None \<Rightarrow> [] | Some s \<Rightarrow> s)
      in if length new_desc > 850 then cut_at new_desc 850 else new_desc)"

text \<open>
  The \<^verbatim>\<open>except\<close> branch: the first 850 characters of the original, cut with their
  length as the limit (\<^verbatim>\<open>tmp.rfind(".")\<close> searches all of \<^verbatim>\<open>tmp\<close>).
\<close>

definition truncated_fallback :: "string \<Rightarrow> string" where
  "truncated_fallback desc = (let tmp = take 850 desc in cut_at tmp (length tmp))"

text \<open>The text written on a cache miss: the reply, or the fallback when the call raises.\<close>

definition rewrite_description :: "(string \<Rightarrow> gen_result) \<Rightarrow> string \<Rightarrow> string" where
  "rewrite_description gen desc =
     (case gen (desc_prompt desc) of
        GenRaises \<Rightarrow> truncated_fallback desc
      | GenContent c \<Rightarrow> rewritten_reply c)"

text \<open>
  The \<^verbatim>\<open>Description\<close> block of the loop body for one activity: nothing happens unless
  the value is a string of more than 1000 characters; a cached value that is true in
  Python's sense is stored as it is; otherwise the rewritten text is stored and cached.
  The block for \<^verbatim>\<open>Internal Notes\<close> that follows it writes only the key
  \<^verbatim>\<open>Internal Notes\<close> and the cache, and is not part of this definition.
\<close>

definition enforce_description ::
    "(string list \<Rightarrow> string) \<Rightarrow> (string \<Rightarrow> gen_result) \<Rightarrow> cache_store \<Rightarrow> pydict
       \<Rightarrow> pydict \<times> cache_store" where
  "enforce_description hash gen cache act =
     (case dict_get act ''Description'' of
        Some (PStr desc) \<Rightarrow>
          if length desc > 1000
          then let key = hash [''desc850'', desc];
                   new_desc = rewrite_description gen desc;
                   miss = (dict_set act ''Description'' (PStr new_desc),
                           cache_set cache ''rewrite850'' key (PStr new_desc))
               in (case cache_get cache ''rewrite850'' key of
                     Some cached \<Rightarrow>
                       if truthy cached then (dict_set act ''Description'' cached, cache)
                       else miss
                   | None \<Rightarrow> miss)
          else (act, cache)
      | _ \<Rightarrow> (act, cache))"

section \<open>Submission of one activity (\<^verbatim>\<open>automation_agent.py\<close>, \<^verbatim>\<open>submit_activity\<close>)\<close>

subsection \<open>Exceptions\<close>

text \<open>
  The exceptions that leave \<^verbatim>\<open>submit_activity\<close>: the \<^verbatim>\<open>ValueError\<close> for missing
  fields, the \<^verbatim>\<open>Exception\<close> raised after the last snapshot error, an exception of the
  executor re-raised as it is (\<open>ExecutorError\<close> with its text \<^verbatim>\<open>str(e)\<close>), and the
  \<^verbatim>\<open>AttributeError\<close> of a string method called on a value that is not a string.
\<close>

datatype exn =
    ValueError string
  | Exception string
  | ExecutorError string
  | AttributeError string

fun exn_message :: "exn \<Rightarrow> string" where
  "exn_message (ValueError m) = m"
| "exn_message (Exception m) = m"
| "exn_message (ExecutorError m) = m"
| "exn_message (AttributeError m) = m"

subsection \<open>Helpers of the preparation\<close>

text \<open>\<^verbatim>\<open>_get_fallback_tech_options\<close>.\<close>

definition get_fallback_tech_options :: tech_options where
  "get_fallback_tech_options =
     \<lparr> primary =
         [''Artificial Intelligence'', ''Cloud Computing'', ''Web Development'',
          ''Database Technology'', ''Cybersecurity'', ''DevOps'', ''Mobile Development'',
          ''Data Analytics'', ''Internet of Things'', ''Blockchain'', ''Machine Learning'',
          ''Software Development'', ''.NET'', ''Azure'', ''Microsoft 365'', ''Power Platform''],
       additional =
         [''Python'', ''JavaScript'', ''React'', ''Node.js'', ''C#'', ''TypeScript'',
          ''Azure Functions'', ''Azure App Service'', ''Power Apps'', ''Power BI'',
          ''SharePoint'', ''Teams'', ''Security'', ''Performance Optimization'', ''Analytics'',
          ''Machine Learning'', ''Network Security'', ''Compliance'', ''DevOps''] \<rparr>"

text \<open>The default audience list of \<^verbatim>\<open>submit_activity\<close>.\<close>

definition default_audiences :: "string list" where
  "default_audiences =
     [''Developer'', ''IT Pro'', ''Business Decision Maker'', ''Technical Decision Maker'',
      ''Student'']"

text \<open>
  \<^verbatim>\<open>(x or "")\<close> followed by a call of the string method \<open>meth\<close>, for a value read with
  \<^verbatim>\<open>d.get(key, '')\<close>: a value that is false in Python's sense gives the empty string, a
  string gives itself, any other value has no such method.
\<close>

fun type_name :: "pyval \<Rightarrow> string" where
  "type_name PNone = ''NoneType''"
| "type_name (PBool b) = ''bool''"
| "type_name (PInt i) = ''int''"
| "type_name (PStr s) = ''str''"
| "type_name (PList l) = ''list''"

definition str_receiver :: "string \<Rightarrow> pyval option \<Rightarrow> exn + string" where
  "str_receiver meth v =
     (case v of
        None \<Rightarrow> Inr []
      | Some (PStr s) \<Rightarrow> Inr s
      | Some x \<Rightarrow>
          if truthy x
          then Inl (AttributeError
                 ([CHR 0x27] @ type_name x @ [CHR 0x27] @ '' object has no attribute ''
                    @ [CHR 0x27] @ meth @ [CHR 0x27]))
          else Inr [])"

text \<open>
  \<^verbatim>\<open>_match_choice(choice, pool)\<close>: the first pool entry equal to the choice up to case,
  else the first that contains it up to case, else the empty string.
\<close>

definition match_choice :: "string \<Rightarrow> string list \<Rightarrow> string" where
  "match_choice choice pool =
     (if choice = [] then []
      else case find (\<lambda>p. p \<noteq> [] \<and> lower p = lower choice) pool of
             Some p \<Rightarrow> p
           | None \<Rightarrow>
               (case find (\<lambda>p. p \<noteq> [] \<and> contains (lower choice) (lower p)) pool of
                  Some p \<Rightarrow> p
                | None \<Rightarrow> []))"

text \<open>The loop that maps the additional choices to portal strings.\<close>

fun clean_additional :: "string list \<Rightarrow> string list \<Rightarrow> string list \<Rightarrow> string list" where
  "clean_additional pool cleaned [] = cleaned"
| "clean_additional pool cleaned (a # rest) =
     (if a = [] then clean_additional pool cleaned rest
      else let matched = match_choice a pool
           in if matched \<noteq> [] \<and> matched \<notin> set cleaned
              then clean_additional pool (cleaned @ [matched]) rest
              else if a \<notin> set cleaned \<and> a \<in> set pool
                   then clean_additional pool (cleaned @ [a]) rest
                   else clean_additional pool cleaned rest)"

text \<open>
  \<^verbatim>\<open>re.sub(r"https?://\S+", "", text)\<close>: wherever \<^verbatim>\<open>http://\<close> or \<^verbatim>\<open>https://\<close> is followed
  by a character that is not white space, the prefix and the run of such characters
  are removed.
\<close>

definition url_prefix :: "string \<Rightarrow> nat" where
  "url_prefix s =
     (if take 7 s = ''http://'' \<and> 7 < length s \<and> \<not> is_space (s ! 7) then 7
      else if take 8 s = ''https://'' \<and> 8 < length s \<and> \<not> is_space (s ! 8) then 8
      else 0)"

function remove_urls :: "string \<Rightarrow> string" where
  "remove_urls [] = []"
| "remove_urls (c # cs) =
     (if url_prefix (c # cs) > 0
      then remove_urls (dropWhile (\<lambda>x. \<not> is_space x) (drop (url_prefix (c # cs)) (c # cs)))
      else c # remove_urls cs)"
  by pat_completeness auto
termination
proof (relation "measure length")
  show "wf (measure length)" by simp
next
  fix c :: char and cs :: string
  assume "0 < url_prefix (c # cs)"
  have "length (dropWhile (\<lambda>x. \<not> is_space x) (drop (url_prefix (c # cs)) (c # cs)))
          \<le> length (drop (url_prefix (c # cs)) (c # cs))"
    by (rule length_dropWhile_le)
  also have "\<dots> < length (c # cs)"
    using \<open>0 < url_prefix (c # cs)\<close> by simp
  finally show "(dropWhile (\<lambda>x. \<not> is_space x) (drop (url_prefix (c # cs)) (c # cs)), c # cs)
                  \<in> measure length"
    by simp
next
  fix c :: char and cs :: string
  show "(cs, c # cs) \<in> measure length" by simp
qed

text \<open>\<^verbatim>\<open>s.rstrip('. ')\<close>.\<close>

definition rstrip_dot_space :: "string \<Rightarrow> string" where
  "rstrip_dot_space s = rev (dropWhile (\<lambda>c. c = CHR ''.'' \<or> c = CHR '' '') (rev s))"

text \<open>
  \<^verbatim>\<open>_generate_private_description\<close>, on the string it receives. The two
  \<^verbatim>\<open>replace\<close> calls turn a dash outside ASCII into a hyphen and a hyphen into
  itself, so they leave the ASCII strings of the model unchanged.
\<close>

definition generate_private_description :: "string \<Rightarrow> string" where
  "generate_private_description description =
     (let text = strip description;
          text = strip (remove_urls text)
      in if text = [] then ''This is a concise internal summary for tracking this activity.''
         else let max_len = 400;
                  text = (if length text > max_len
                          then let cutoff = rfind CHR ''.'' text max_len;
                                   cutoff = (if cutoff = -1 then rfind CHR '' '' text max_len
                                             else cutoff)
                               in strip (take (if cutoff \<noteq> -1 then nat cutoff else max_len) text)
                          else text)
              in if \<not> ends_with_punct text then rstrip_dot_space text @ ''.'' else text)"

subsection \<open>The agent, the store and the outside world\<close>

text \<open>
  The fields of the agent that \<^verbatim>\<open>submit_activity\<close> reads or writes. \<^verbatim>\<open>_tech_options\<close>
  is \<^verbatim>\<open>None\<close> or an option set (which is a non-empty \<^verbatim>\<open>dict\<close>, hence true);
  \<^verbatim>\<open>_target_audience_options\<close> may be unset, \<^verbatim>\<open>None\<close> or a list.
\<close>

record agent =
  fast_mode :: bool
  rate_limit :: backoff_state
  tech_options_cached :: "tech_options option"
  target_audience_options :: "string list option"

text \<open>
  Activities are objects that the orchestrator and the agent share by reference: the
  store maps an address to the \<^verbatim>\<open>dict\<close> that lives there and \<open>next_free\<close> is the first
  unused address. The values of a \<^verbatim>\<open>dict\<close> are immutable here; the code replaces
  values under a key and never changes a list in place.
\<close>

record store =
  cells :: "nat \<Rightarrow> pydict"
  next_free :: nat

text \<open>\<^verbatim>\<open>dict(d)\<close>: a new object with the same items.\<close>

definition copy_dict :: "store \<Rightarrow> nat \<Rightarrow> nat \<times> store" where
  "copy_dict h r =
     (next_free h, h\<lparr> cells := (cells h)(next_free h := cells h r), next_free := Suc (next_free h) \<rparr>)"

definition store_set :: "store \<Rightarrow> nat \<Rightarrow> string \<Rightarrow> pyval \<Rightarrow> store" where
  "store_set h a k v = h\<lparr> cells := (cells h)(a := dict_set (cells h a) k v) \<rparr>"

text \<open>
  The outside world: what the \<open>k\<close>-th invocation of the executor
  (\<^verbatim>\<open>self.agent.arun(prompt)\<close>) does, given the activity data that the prompt is built
  from, and the clock reading and the random draw of the \<open>k\<close>-th backoff computation.
  An invocation raises an exception with the text \<^verbatim>\<open>str(e)\<close>, or returns a response
  whose \<^verbatim>\<open>content\<close> is a string or \<^verbatim>\<open>None\<close>. \<open>answers_yes\<close> tells whether the
  operator answers \<^verbatim>\<open>y\<close> when asked to continue after a failed activity (an input
  that raises counts as yes). The prompts that only wait for the Enter key change
  nothing and have no counterpart here.
\<close>

datatype exec_result = Raises string | Returns "string option"

record world =
  arun :: "nat \<Rightarrow> pydict \<Rightarrow> exec_result"
  time_now :: "nat \<Rightarrow> real"
  random_draw :: "nat \<Rightarrow> real"
  answers_yes :: bool

text \<open>
  What a run can observe besides return values: the executor invocations, the sleeps
  and the snapshot requests, in order. Console output is not modelled.
\<close>

datatype event = ExecutorCall | Sleep real | Snapshot

record state =
  the_agent :: agent
  heap :: store
  n_arun :: nat
  n_backoff :: nat
  events :: "event list"

text \<open>One call of \<^verbatim>\<open>self._compute_backoff()\<close> in the clock and random draws of the world.\<close>

definition next_backoff :: "world \<Rightarrow> state \<Rightarrow> real \<times> state" where
  "next_backoff w st =
     (let (d, b) = compute_backoff (rate_limit (the_agent st))
                     (time_now w (n_backoff st)) (random_draw w (n_backoff st))
      in (d, st\<lparr> the_agent := (the_agent st)\<lparr> rate_limit := b \<rparr>,
                  n_backoff := Suc (n_backoff st) \<rparr>))"

subsection \<open>Preparation of the working copy\<close>

definition required_fields :: "string list" where
  "required_fields =
     [''Category'', ''Main Technology'', ''Title'', ''Description'', ''Internal Notes'', ''URL'',
      ''Date'', ''Quantity'', ''Audience'']"

text \<open>\<^verbatim>\<open>str(missing_fields)\<close> for a list of field names.\<close>

fun repr_names :: "string list \<Rightarrow> string" where
  "repr_names [] = []"
| "repr_names [x] = [CHR 0x27] @ x @ [CHR 0x27]"
| "repr_names (x # y # ys) = [CHR 0x27] @ x @ [CHR 0x27] @ '', '' @ repr_names (y # ys)"

text \<open>
  Lines 480 to 569, on the working copy \<open>d\<close>: the audience list, the technology choices
  mapped to portal strings, the derived internal notes and the check of the required
  fields. The result is the prepared copy, or the exception raised on the way.
\<close>

definition technology_fields :: "tech_options \<Rightarrow> pydict \<Rightarrow> exn + pydict" where
  "technology_fields topts d =
     (case str_receiver ''strip'' (Some (case dict_get d ''Title'' of None \<Rightarrow> PStr [] | Some v \<Rightarrow> v)) of
        Inl e \<Rightarrow> Inl e
      | Inr title \<Rightarrow>
     (case str_receiver ''strip''
             (Some (case dict_get d ''Description'' of None \<Rightarrow> PStr [] | Some v \<Rightarrow> v)) of
        Inl e \<Rightarrow> Inl e
      | Inr description \<Rightarrow>
          (let (chosen_primary, chosen_additional) = choose_tech_areas title description topts;
               portal_primary = primary topts;
               portal_additional = additional topts;
               validated_primary = match_choice chosen_primary (portal_primary @ portal_additional);
               validated_primary =
                 (if validated_primary = [] \<and> (portal_primary \<noteq> [] \<or> portal_additional \<noteq> [])
                  then hd (portal_primary @ portal_additional) else validated_primary);
               cleaned_additional =
                 pad_two (clean_additional (portal_additional @ portal_primary) [] chosen_additional);
               d = dict_set d ''Main Technology'' (PStr validated_primary);
               d = dict_set d ''Additional Technologies'' (PList (map PStr cleaned_additional))
           in Inr d)))"

definition internal_notes_field :: "pydict \<Rightarrow> exn + pydict" where
  "internal_notes_field d =
     (if (case dict_get d ''Internal Notes'' of None \<Rightarrow> False | Some v \<Rightarrow> truthy v) then Inr d
      else case str_receiver ''replace''
                  (Some (case dict_get d ''Description'' of None \<Rightarrow> PStr [] | Some v \<Rightarrow> v)) of
             Inl e \<Rightarrow> Inl e
           | Inr description \<Rightarrow>
               Inr (dict_set d ''Internal Notes'' (PStr (generate_private_description description))))"

definition missing_fields :: "pydict \<Rightarrow> string list" where
  "missing_fields d =
     filter (\<lambda>field. case dict_get d field of None \<Rightarrow> True | Some v \<Rightarrow> \<not> truthy v) required_fields"

definition prepare_activity :: "agent \<Rightarrow> pydict \<Rightarrow> agent \<times> pydict \<times> exn option" where
  "prepare_activity ag d0 =
     (let target_audiences =
            (case target_audience_options ag of
               None \<Rightarrow> default_audiences
             | Some l \<Rightarrow> if l = [] then default_audiences else l);
          d1 = dict_set d0 ''Audience'' (PList (map PStr target_audiences));
          topts = (case tech_options_cached ag of None \<Rightarrow> get_fallback_tech_options | Some t \<Rightarrow> t);
          ag = ag\<lparr> tech_options_cached := Some topts \<rparr>
      in case technology_fields topts d1 of
           Inl e \<Rightarrow> (ag, d1, Some e)
         | Inr d2 \<Rightarrow>
             (case internal_notes_field d2 of
                Inl e \<Rightarrow> (ag, d2, Some e)
              | Inr d3 \<Rightarrow>
                  if missing_fields d3 \<noteq> []
                  then (ag, d3, Some (ValueError (''Missing required fields: ['' @
                                                  repr_names (missing_fields d3) @ '']'')))
                  else (ag, d3, None)))"

subsection \<open>The retry loop of \<^verbatim>\<open>submit_activity\<close>\<close>

text \<open>The two tests on \<^verbatim>\<open>error_msg\<close>, in the order of the code.\<close>

definition is_rate_limit :: "string \<Rightarrow> bool" where
  "is_rate_limit error_msg = (contains ''rate'' (lower error_msg) \<or> contains ''429'' error_msg)"

definition is_snapshot_error :: "string \<Rightarrow> bool" where
  "is_snapshot_error error_msg =
     (contains ''not found in the current page snapshot'' error_msg \<or> contains ''Ref'' error_msg)"

definition max_attempts :: nat where
  "max_attempts = 3"

text \<open>
  \<^verbatim>\<open>for attempt in range(max_attempts)\<close>, with the number of iterations left as the
  first counter. An invocation that returns ends the function with the content of the
  response. A rate-limit error computes a backoff, sleeps, asks for a snapshot and
  goes on to the next iteration (\<^verbatim>\<open>continue\<close>), also in the last one. A snapshot error
  asks for a snapshot and goes on, except in the last iteration, where it raises. Any
  other error is raised again. When the iterations are used up the function ends
  without a \<^verbatim>\<open>return\<close> statement, that is, it returns \<^verbatim>\<open>None\<close>.
\<close>

fun attempts :: "world \<Rightarrow> pydict \<Rightarrow> nat \<Rightarrow> nat \<Rightarrow> state \<Rightarrow> (exn + string option) \<times> state" where
  "attempts w d 0 attempt st = (Inr None, st)"
| "attempts w d (Suc remaining) attempt st =
     (let st1 = st\<lparr> n_arun := Suc (n_arun st), events := events st @ [ExecutorCall] \<rparr>
      in case arun w (n_arun st) d of
           Returns content \<Rightarrow> (Inr content, st1)
         | Raises error_msg \<Rightarrow>
             if is_rate_limit error_msg
             then (let (backoff, st2) = next_backoff w st1;
                       st3 = st2\<lparr> events := events st2 @ [Sleep backoff, Snapshot] \<rparr>
                   in attempts w d remaining (Suc attempt) st3)
             else if is_snapshot_error error_msg
             then (if attempt < max_attempts - 1
                   then attempts w d remaining (Suc attempt)
                          (st1\<lparr> events := events st1 @ [Snapshot] \<rparr>)
                   else (Inl (Exception ''Failed after 3 attempts due to snapshot errors''), st1))
             else (Inl (ExecutorError error_msg), st1))"

text \<open>
  \<^verbatim>\<open>submit_activity\<close> for the activity at address \<open>r\<close>: the working copy is a new
  object, the preparation writes to it, and the retry loop runs unless the preparation
  raised.
\<close>

definition submit_activity :: "world \<Rightarrow> nat \<Rightarrow> state \<Rightarrow> (exn + string option) \<times> state" where
  "submit_activity w r st =
     (let (a, h) = copy_dict (heap st) r;
          (ag, d, err) = prepare_activity (the_agent st) (cells h a);
          st1 = st\<lparr> the_agent := ag, heap := h\<lparr> cells := (cells h)(a := d) \<rparr> \<rparr>
      in case err of
           Some e \<Rightarrow> (Inl e, st1)
         | None \<Rightarrow> attempts w d max_attempts 0 st1)"

section \<open>The retry loop of the orchestrator (\<^verbatim>\<open>orchestrator.py\<close>, \<^verbatim>\<open>run_automation\<close>)\<close>

text \<open>
  Lines 484 to 542, for the reviewed activity at address \<open>r\<close>: up to three calls of
  \<^verbatim>\<open>submit_activity\<close>. A call that returns marks the activity as processed. After an
  exception in the first two rounds the loop sleeps (with the adaptive backoff for a
  rate-limit text) and calls again; in the third round the activity is marked as failed,
  and the run stops when the operator is asked and does not answer yes.
\<close>

datatype outcome = Processed | Failed | Stopped | NotAttempted

definition max_activity_retries :: nat where
  "max_activity_retries = 3"

text \<open>
  The pause between two rounds (lines 514 to 533), chosen by the text of the exception:
  a short sleep for a snapshot text, the adaptive backoff of the agent for a rate-limit
  text, a longer sleep for every other text.
\<close>

definition sleep_before_retry :: "world \<Rightarrow> string \<Rightarrow> state \<Rightarrow> state" where
  "sleep_before_retry w error_msg st1 =
     (let fast = fast_mode (the_agent st1)
      in if contains ''snapshot'' (lower error_msg) \<or> contains ''ref'' (lower error_msg)
         then st1\<lparr> events := events st1 @ [Sleep (if fast then 0.25 else 0.5)] \<rparr>
         else if contains ''rate'' (lower error_msg) \<or> contains ''429'' error_msg
         then (let (backoff, st2) = next_backoff w st1
               in st2\<lparr> events := events st2 @ [Sleep backoff] \<rparr>)
         else st1\<lparr> events := events st1 @ [Sleep (if fast then 0.5 else 1.0)] \<rparr>)"

fun activity_rounds :: "world \<Rightarrow> bool \<Rightarrow> nat \<Rightarrow> nat \<Rightarrow> nat \<Rightarrow> state \<Rightarrow> outcome \<times> state" where
  "activity_rounds w interactive r 0 retry st = (NotAttempted, st)"
| "activity_rounds w interactive r (Suc remaining) retry st =
     (case submit_activity w r st of
        (Inr content, st1) \<Rightarrow> (Processed, st1)
      | (Inl e, st1) \<Rightarrow>
          (let error_msg = exn_message e
           in if retry < max_activity_retries - 1
              then activity_rounds w interactive r remaining (Suc retry)
                     (sleep_before_retry w error_msg st1)
              else if interactive \<and> \<not> fast_mode (the_agent st1) \<and> \<not> answers_yes w
                   then (Stopped, st1)
                   else (Failed, st1)))"

definition process_activity :: "world \<Rightarrow> bool \<Rightarrow> nat \<Rightarrow> state \<Rightarrow> outcome \<times> state" where
  "process_activity w interactive r st = activity_rounds w interactive r max_activity_retries 0 st"

text \<open>
  \<^verbatim>\<open>validate_activity_data\<close> (lines 316 to 328): the names of the required fields that
  are absent from the normalized record or hold a value that is false in Python's sense.
  Its list of required fields is the one of \<^verbatim>\<open>submit_activity\<close>. Only a record for
  which the first component is true reaches the retry loop (lines 421 to 437).
\<close>

definition validate_activity_data :: "pydict \<Rightarrow> bool \<times> string list" where
  "validate_activity_data activity =
     (let act = normalize_activity_keys activity;
          missing = missing_fields act
      in (length missing = 0, missing))"

text \<open>The keys that \<^verbatim>\<open>submit_activity\<close> assigns in the working copy.\<close>

definition written_keys :: "string set" where
  "written_keys = {''Audience'', ''Main Technology'', ''Additional Technologies'', ''Internal Notes''}"

section \<open>Properties of the adaptive backoff\<close>

lemma uniform_bounds:
  "0 \<le> b \<Longrightarrow> 0 \<le> u \<Longrightarrow> u \<le> 1 \<Longrightarrow> 0 \<le> uniform 0 b u \<and> uniform 0 b u \<le> b"
  by (simp add: uniform_def mult_left_le)

lemma compute_backoff_reset:
  assumes "window_expired s now"
  shows "compute_backoff s now u =
           (rate_backoff_base s + uniform 0 (min 1 (rate_backoff_base s * 0.1)) u,
            s\<lparr> recent_429 := 1, first_429_ts := Some now, circuit_open := False \<rparr>)"
  using assms by (simp add: compute_backoff_def reset_window_def backoff_before_jitter_def Let_def)

lemma compute_backoff_in_window:
  assumes "\<not> window_expired s now"
  shows "compute_backoff s now u =
           (backoff_before_jitter (rate_backoff_base s) (recent_429 s + 1)
              + uniform 0 (min 1 (backoff_before_jitter (rate_backoff_base s) (recent_429 s + 1) * 0.1)) u,
            s\<lparr> recent_429 := recent_429 s + 1,
               circuit_open := (recent_429 s + 1 \<ge> 5 \<or> circuit_open s) \<rparr>)"
  using assms by (simp add: compute_backoff_def reset_window_def Let_def)

lemma backoff_before_jitter_nonneg: "0 \<le> base \<Longrightarrow> 0 \<le> backoff_before_jitter base c"
  by (simp add: backoff_before_jitter_def Let_def max_def)

lemma backoff_before_jitter_mono:
  assumes "0 \<le> base" "c \<le> c'"
  shows "backoff_before_jitter base c \<le> backoff_before_jitter base c'"
proof -
  have e: "nat (min (max (c - 1) 0) 6) \<le> nat (min (max (c' - 1) 0) 6)"
    using assms(2) by simp
  have p: "base * 2 ^ nat (min (max (c - 1) 0) 6) \<le> base * 2 ^ nat (min (max (c' - 1) 0) 6)"
    using assms(1) e by (intro mult_left_mono power_increasing) simp_all
  show ?thesis
  proof (cases "5 \<le> c'")
    case True
    then show ?thesis
      using p by (cases "5 \<le> c") (simp_all add: backoff_before_jitter_def Let_def max.coboundedI1)
  next
    case False
    then show ?thesis
      using p assms(2) by (simp add: backoff_before_jitter_def Let_def)
  qed
qed

lemma signals_length: "length (fst (signals s sigs)) = length sigs"
  by (induction sigs arbitrary: s) (auto simp: split_beta Let_def)

lemma signals_base: "rate_backoff_base (snd (signals s sigs)) = rate_backoff_base s"
  by (induction sigs arbitrary: s)
     (auto simp: split_beta Let_def compute_backoff_def reset_window_def)

lemma signals_in_window:
  assumes "first_429_ts s = Some t0" "\<forall>t\<in>set (map fst sigs). t - t0 \<le> 60" "i < length sigs"
  shows "fst (signals s sigs) ! i =
           backoff_before_jitter (rate_backoff_base s) (recent_429 s + int i + 1)
             + uniform 0 (min 1 (backoff_before_jitter (rate_backoff_base s) (recent_429 s + int i + 1) * 0.1))
                 (snd (sigs ! i))"
  using assms
proof (induction sigs arbitrary: s i)
  case Nil
  then show ?case by simp
next
  case (Cons p rest)
  obtain now u where p: "p = (now, u)" by (cases p)
  have nw: "\<not> window_expired s now"
    using Cons.prems(1,2) p by (simp add: window_expired_def)
  let ?s' = "snd (compute_backoff s now u)"
  have s': "first_429_ts ?s' = Some t0" "recent_429 ?s' = recent_429 s + 1"
           "rate_backoff_base ?s' = rate_backoff_base s"
    using Cons.prems(1) by (simp_all add: compute_backoff_in_window[OF nw])
  show ?case
  proof (cases i)
    case 0
    then show ?thesis
      by (simp add: p split_beta Let_def compute_backoff_in_window[OF nw])
  next
    case (Suc k)
    have "fst (signals ?s' rest) ! k =
            backoff_before_jitter (rate_backoff_base ?s') (recent_429 ?s' + int k + 1)
             + uniform 0 (min 1 (backoff_before_jitter (rate_backoff_base ?s') (recent_429 ?s' + int k + 1) * 0.1))
                 (snd (rest ! k))"
      using Cons.prems(2,3) Suc by (intro Cons.IH[OF s'(1)]) simp_all
    then show ?thesis
      using Suc by (simp add: p split_beta Let_def s' add.commute add.left_commute)
  qed
qed


lemma signals_new_window:
  assumes "window_expired s t1" "\<forall>t\<in>set (map fst rest). t - t1 \<le> 60" "i < Suc (length rest)"
  shows "fst (signals s ((t1, u1) # rest)) ! i =
           backoff_before_jitter (rate_backoff_base s) (int i + 1)
             + uniform 0 (min 1 (backoff_before_jitter (rate_backoff_base s) (int i + 1) * 0.1))
                 (snd (((t1, u1) # rest) ! i))"
proof (cases i)
  case 0
  then show ?thesis
    by (simp add: split_beta Let_def compute_backoff_reset[OF assms(1)] backoff_before_jitter_def)
next
  case (Suc k)
  let ?s' = "snd (compute_backoff s t1 u1)"
  have s': "first_429_ts ?s' = Some t1" "recent_429 ?s' = 1"
           "rate_backoff_base ?s' = rate_backoff_base s"
    by (simp_all add: compute_backoff_reset[OF assms(1)])
  have "fst (signals ?s' rest) ! k =
          backoff_before_jitter (rate_backoff_base ?s') (recent_429 ?s' + int k + 1)
           + uniform 0 (min 1 (backoff_before_jitter (rate_backoff_base ?s') (recent_429 ?s' + int k + 1) * 0.1))
               (snd (rest ! k))"
    using assms(2,3) Suc by (intro signals_in_window[OF s'(1)]) simp_all
  then show ?thesis
    using Suc by (simp add: split_beta Let_def s' add.commute add.left_commute)
qed

lemma window_expired_signals:
  assumes "window_expired s now" "\<forall>t\<in>set (map fst sigs). now - t > 60"
  shows "window_expired (snd (signals s sigs)) now"
  using assms
proof (induction sigs arbitrary: s)
  case Nil
  then show ?case by simp
next
  case (Cons p rest)
  obtain t u where p: "p = (t, u)" by (cases p)
  have "window_expired (snd (compute_backoff s t u)) now"
    using Cons.prems p
    by (auto simp: compute_backoff_def reset_window_def window_expired_def Let_def
             split: option.splits)
  then show ?case
    using Cons.IH Cons.prems(2) by (simp add: p split_beta Let_def)
qed

lemma backoff_before_jitter_floor: "5 \<le> c \<Longrightarrow> 10 \<le> backoff_before_jitter base c"
  by (simp add: backoff_before_jitter_def Let_def)

lemma compute_backoff_shape:
  "compute_backoff s now u =
     (backoff_before_jitter (rate_backoff_base s) (recent_429 (reset_window s now) + 1)
        + uniform 0 (min 1 (backoff_before_jitter (rate_backoff_base s)
                              (recent_429 (reset_window s now) + 1) * 0.1)) u,
      snd (compute_backoff s now u))"
  by (simp add: compute_backoff_def reset_window_def Let_def)

lemma compute_backoff_count:
  "recent_429 (snd (compute_backoff s now u)) = recent_429 (reset_window s now) + 1"
  by (simp add: compute_backoff_def Let_def)

lemma compute_backoff_circuit:
  "5 \<le> recent_429 (snd (compute_backoff s now u)) \<Longrightarrow> circuit_open (snd (compute_backoff s now u))"
  by (auto simp: compute_backoff_def Let_def split: if_splits)

text \<open>
  Claim C8. When every earlier overload signal lies more than 60 seconds before the
  clock reading \<open>now\<close> (and so did the window the run started from), the next call
  of \<^verbatim>\<open>_compute_backoff\<close> resets the window first: the count is 1 afterwards, the
  circuit is closed, the window starts at \<open>now\<close>, the delay before jitter is the
  configured base, and the delay is the one a state with no recorded signal returns.
\<close>

theorem quiet_minute_resets_window:
  assumes "window_expired s0 now"
      and "\<forall>t\<in>set (map fst sigs). now - t > 60"
      and "s = snd (signals s0 sigs)"
      and "compute_backoff s now u = (delay, s')"
  shows "recent_429 s' = 1 \<and> \<not> circuit_open s' \<and> first_429_ts s' = Some now
         \<and> backoff_before_jitter (rate_backoff_base s0) (recent_429 s') = rate_backoff_base s0
         \<and> delay = rate_backoff_base s0 + uniform 0 (min 1 (rate_backoff_base s0 * 0.1)) u
         \<and> delay = fst (compute_backoff
                          (s\<lparr> recent_429 := 0, first_429_ts := None, circuit_open := False \<rparr>) now u)"
proof -
  have e: "window_expired s now"
    using window_expired_signals[OF assms(1,2)] assms(3) by simp
  have b: "rate_backoff_base s = rate_backoff_base s0"
    using assms(3) by (simp add: signals_base)
  have e0: "window_expired (s\<lparr> recent_429 := 0, first_429_ts := None, circuit_open := False \<rparr>) now"
    by (simp add: window_expired_def)
  show ?thesis
    using assms(4) b
    by (auto simp: compute_backoff_reset[OF e] compute_backoff_reset[OF e0]
                   backoff_before_jitter_def)
qed

theorem quiet_minute_resets_window_witness:
  "compute_backoff
     (snd (signals \<lparr> recent_429 = 5, first_429_ts = Some 0, circuit_open = True,
                       rate_backoff_base = 1 / 2 \<rparr> [(10, 0)])) 100 1
     = (11 / 20, \<lparr> recent_429 = 1, first_429_ts = Some 100, circuit_open = False,
                    rate_backoff_base = 1 / 2 \<rparr>)
   \<and> backoff_before_jitter (1 / 2) 1 = 1 / 2"
proof -
  let ?s0 = "\<lparr> recent_429 = 5, first_429_ts = Some 0, circuit_open = True,
               rate_backoff_base = 1 / 2 \<rparr>"
  let ?s1 = "\<lparr> recent_429 = 6, first_429_ts = Some 0, circuit_open = True,
               rate_backoff_base = 1 / 2 \<rparr>"
  let ?s' = "\<lparr> recent_429 = 1, first_429_ts = Some 100, circuit_open = False,
               rate_backoff_base = 1 / 2 \<rparr>"
  have h1: "window_expired ?s0 100"
    by (simp add: window_expired_def)
  have h2: "\<forall>t\<in>set (map fst [(10::real, 0::real)]). 100 - t > 60" by simp
  have v: "snd (signals ?s0 [(10, 0)]) = ?s1"
    by (simp add: compute_backoff_def reset_window_def window_expired_def Let_def)
  have c: "compute_backoff (snd (signals ?s0 [(10, 0)])) 100 1 = (11 / 20, ?s')"
    unfolding v
    by (simp add: compute_backoff_def reset_window_def window_expired_def
                  backoff_before_jitter_def uniform_def Let_def)
  from quiet_minute_resets_window[OF h1 h2 refl c]
  have "backoff_before_jitter (rate_backoff_base ?s0) (recent_429 ?s') = rate_backoff_base ?s0"
    by blast
  then have "backoff_before_jitter (1 / 2) 1 = 1 / 2" by simp
  with c show ?thesis by blast
qed

text \<open>
  Claim C2. With a positive base and a draw \<open>u\<close> of \<^verbatim>\<open>random()\<close> in \<open>[0, 1]\<close>, a call
  whose count after the increment is \<open>c \<ge> 1\<close> returns \<open>d + j\<close>, where \<open>d\<close> is
  \<open>base * 2 ^ min (c - 1) 6\<close>, raised to at least 10 when \<open>c \<ge> 5\<close> (and then the
  circuit is open), and \<open>0 \<le> j \<le> min 1 (d * 0.1)\<close>. When the call opens a new window
  and five more signals follow within 60 seconds of it, the sixth delay is at least 10.
\<close>

theorem compute_backoff_delay:
  assumes base: "0 < rate_backoff_base s" and u: "0 \<le> u" "u \<le> 1"
      and call: "compute_backoff s now u = (delay, s')"
      and c: "c = recent_429 s'" "1 \<le> c"
      and d: "d = (if 5 \<le> c then max (rate_backoff_base s * 2 ^ nat (min (c - 1) 6)) 10
                   else rate_backoff_base s * 2 ^ nat (min (c - 1) 6))"
  shows "0 \<le> delay - d \<and> delay - d \<le> min 1 (d * 0.1)
         \<and> (5 \<le> c \<longrightarrow> circuit_open s' \<and> 10 \<le> delay)
         \<and> (window_expired s now \<and> length rest = 5
              \<and> (\<forall>p\<in>set rest. fst p - now \<le> 60 \<and> 0 \<le> snd p \<and> snd p \<le> 1)
              \<longrightarrow> 10 \<le> fst (signals s ((now, u) # rest)) ! 5)"
proof -
  have s': "s' = snd (compute_backoff s now u)" using call by simp
  have cc: "c = recent_429 (reset_window s now) + 1"
    using c(1) s' by (simp add: compute_backoff_count)
  have dd: "d = backoff_before_jitter (rate_backoff_base s) c"
    using c(2) d by (simp add: backoff_before_jitter_def Let_def)
  have d0: "0 \<le> d"
    using base dd by (simp add: backoff_before_jitter_nonneg)
  have del: "delay = d + uniform 0 (min 1 (d * 0.1)) u"
    using call dd cc compute_backoff_shape[of s now u] by simp
  have m0: "0 \<le> min 1 (d * 0.1)" using d0 by simp
  have j: "0 \<le> delay - d \<and> delay - d \<le> min 1 (d * 0.1)"
    using uniform_bounds[OF m0 u] del by simp
  have five: "5 \<le> c \<longrightarrow> circuit_open s' \<and> 10 \<le> delay"
  proof
    assume h: "5 \<le> c"
    have "10 \<le> d" using h dd by (simp add: backoff_before_jitter_floor)
    moreover have "circuit_open s'"
      using h c(1) s' compute_backoff_circuit[of s now u] by simp
    ultimately show "circuit_open s' \<and> 10 \<le> delay" using j by simp
  qed
  have sixth: "window_expired s now \<and> length rest = 5
       \<and> (\<forall>p\<in>set rest. fst p - now \<le> 60 \<and> 0 \<le> snd p \<and> snd p \<le> 1)
       \<longrightarrow> 10 \<le> fst (signals s ((now, u) # rest)) ! 5"
  proof
    assume h: "window_expired s now \<and> length rest = 5
       \<and> (\<forall>p\<in>set rest. fst p - now \<le> 60 \<and> 0 \<le> snd p \<and> snd p \<le> 1)"
    let ?b = "backoff_before_jitter (rate_backoff_base s) 6"
    have w: "\<forall>t\<in>set (map fst rest). t - now \<le> 60" using h by simp
    have e: "fst (signals s ((now, u) # rest)) ! 5
               = ?b + uniform 0 (min 1 (?b * 0.1)) (snd (((now, u) # rest) ! 5))"
      using signals_new_window[of s now rest 5 u] h w by simp
    have r: "rest ! 4 \<in> set rest" using h by simp
    have u5: "0 \<le> snd (((now, u) # rest) ! 5) \<and> snd (((now, u) # rest) ! 5) \<le> 1"
      using h r by (simp add: numeral_nat)
    have b6: "10 \<le> ?b" by (simp add: backoff_before_jitter_floor)
    then have "0 \<le> min 1 (?b * 0.1)" by simp
    from uniform_bounds[OF this] u5 have "0 \<le> uniform 0 (min 1 (?b * 0.1)) (snd (((now, u) # rest) ! 5))"
      by blast
    then show "10 \<le> fst (signals s ((now, u) # rest)) ! 5"
      using e b6 by simp
  qed
  show ?thesis using j five sixth by blast
qed

theorem compute_backoff_delay_witness:
  "compute_backoff \<lparr> recent_429 = 5, first_429_ts = Some 0, circuit_open = True,
                      rate_backoff_base = 1 / 2 \<rparr> 10 (1 / 2)
     = (33 / 2, \<lparr> recent_429 = 6, first_429_ts = Some 0, circuit_open = True,
                   rate_backoff_base = 1 / 2 \<rparr>)
   \<and> 0 \<le> (33 / 2 - 16 :: real) \<and> (33 / 2 - 16 :: real) \<le> min 1 (16 * 0.1)
   \<and> 10 \<le> fst (signals (init_backoff True)
                    [(100, 1 / 2), (101, 0), (102, 1), (103, 0), (104, 9 / 10), (105, 1 / 10)]) ! 5"
proof -
  let ?s = "\<lparr> recent_429 = 5, first_429_ts = Some 0, circuit_open = True,
              rate_backoff_base = 1 / 2 \<rparr>"
  let ?s' = "\<lparr> recent_429 = 6, first_429_ts = Some 0, circuit_open = True,
               rate_backoff_base = 1 / 2 \<rparr>"
  let ?rest = "[(101, 0), (102, 1), (103, 0), (104, 9 / 10), (105 :: real, 1 / 10 :: real)]"
  have c: "compute_backoff ?s 10 (1 / 2) = (33 / 2, ?s')"
    by (simp add: compute_backoff_def reset_window_def window_expired_def
                  backoff_before_jitter_def uniform_def Let_def)
  have d: "(16 :: real) = (if 5 \<le> (6 :: int)
              then max (rate_backoff_base ?s * 2 ^ nat (min (6 - 1) 6)) 10
              else rate_backoff_base ?s * 2 ^ nat (min (6 - 1) 6))"
    by simp
  have a: "0 \<le> (33 / 2 - 16 :: real) \<and> (33 / 2 - 16 :: real) \<le> min 1 (16 * 0.1)"
    using compute_backoff_delay[of ?s "1 / 2" 10 "33 / 2" ?s' 6 16 "[]", OF _ _ _ c _ _ d]
    by simp
  let ?f = "\<lparr> recent_429 = 1, first_429_ts = Some 100, circuit_open = False,
              rate_backoff_base = 1 / 4 \<rparr>"
  have c1: "compute_backoff (init_backoff True) 100 (1 / 2) = (21 / 80, ?f)"
    by (simp add: compute_backoff_def reset_window_def window_expired_def init_backoff_def
                  backoff_before_jitter_def uniform_def Let_def)
  have d1: "(1 / 4 :: real) = (if 5 \<le> (1 :: int)
              then max (rate_backoff_base (init_backoff True) * 2 ^ nat (min (1 - 1) 6)) 10
              else rate_backoff_base (init_backoff True) * 2 ^ nat (min (1 - 1) 6))"
    by (simp add: init_backoff_def)
  have w: "window_expired (init_backoff True) 100"
    by (simp add: window_expired_def init_backoff_def)
  have b: "10 \<le> fst (signals (init_backoff True) ((100, 1 / 2) # ?rest)) ! 5"
    using compute_backoff_delay[of "init_backoff True" "1 / 2" 100 "21 / 80" ?f 1 "1 / 4" ?rest,
            OF _ _ _ c1 _ _ d1] w
    by (simp add: init_backoff_def)
  from c a b show ?thesis by blast
qed

text \<open>
  Claim C4, as amended. In one window (the first signal opens it, the others come within
  60 seconds of it), with a positive base and draws in \<open>[0, 1]\<close>: the delay before
  jitter is non-decreasing in the count; each returned delay lies between its delay
  before jitter and one second more; a later delay is never more than one second below
  an earlier one; and it is not below the earlier one when its draw is not smaller.
\<close>

theorem backoff_monotone_up_to_jitter:
  assumes base: "0 < rate_backoff_base s"
      and new: "window_expired s t1"
      and win: "\<forall>p\<in>set rest. fst p - t1 \<le> 60"
      and draws: "\<forall>p\<in>set ((t1, u1) # rest). 0 \<le> snd p \<and> snd p \<le> 1"
      and ds: "ds = fst (signals s ((t1, u1) # rest))"
      and ij: "i \<le> j" "j < length ds"
  shows "backoff_before_jitter (rate_backoff_base s) (int i + 1)
           \<le> backoff_before_jitter (rate_backoff_base s) (int j + 1)
         \<and> backoff_before_jitter (rate_backoff_base s) (int i + 1) \<le> ds ! i
         \<and> ds ! i \<le> backoff_before_jitter (rate_backoff_base s) (int i + 1) + 1
         \<and> ds ! i - 1 \<le> ds ! j
         \<and> (snd (((t1, u1) # rest) ! i) \<le> snd (((t1, u1) # rest) ! j) \<longrightarrow> ds ! i \<le> ds ! j)"
proof -
  let ?sigs = "(t1, u1) # rest"
  let ?b = "\<lambda>k. backoff_before_jitter (rate_backoff_base s) (int k + 1)"
  let ?m = "\<lambda>k. min 1 (?b k * 0.1)"
  have len: "length ds = Suc (length rest)"
    using signals_length[of s "(t1, u1) # rest"] ds by (simp del: signals.simps)
  have w: "\<forall>t\<in>set (map fst rest). t - t1 \<le> 60" using win by simp
  have val: "ds ! k = ?b k + uniform 0 (?m k) (snd (?sigs ! k))" if "k < Suc (length rest)" for k
    using signals_new_window[OF new w that, of u1] ds by simp
  have u01: "0 \<le> snd (?sigs ! k) \<and> snd (?sigs ! k) \<le> 1" if "k < Suc (length rest)" for k
  proof -
    have "?sigs ! k \<in> set ?sigs" using that by (intro nth_mem) simp
    then show ?thesis using draws by blast
  qed
  have m0: "0 \<le> ?m k" for k
    using base backoff_before_jitter_nonneg[of "rate_backoff_base s" "int k + 1"] by simp
  have jit: "0 \<le> uniform 0 (?m k) (snd (?sigs ! k)) \<and> uniform 0 (?m k) (snd (?sigs ! k)) \<le> ?m k"
    if "k < Suc (length rest)" for k
    using uniform_bounds[OF m0[of k]] u01[OF that] by blast
  have i: "i < Suc (length rest)" and j: "j < Suc (length rest)"
    using ij len by simp_all
  have mono: "?b i \<le> ?b j"
    using base ij(1) by (intro backoff_before_jitter_mono) simp_all
  have lo: "?b i \<le> ds ! i" using val[OF i] jit[OF i] by simp
  have hi: "ds ! i \<le> ?b i + 1" using val[OF i] jit[OF i] by simp
  have drop: "ds ! i - 1 \<le> ds ! j"
    using hi mono val[OF j] jit[OF j] by simp
  have same: "ds ! i \<le> ds ! j" if u: "snd (?sigs ! i) \<le> snd (?sigs ! j)"
  proof -
    have mm: "?m i \<le> ?m j" using mono by simp
    have "?m i * snd (?sigs ! i) \<le> ?m j * snd (?sigs ! j)"
      using mm u m0[of i] u01[OF i] u01[OF j] by (intro mult_mono) simp_all
    then show ?thesis
      using val[OF i] val[OF j] mono by (simp add: uniform_def)
  qed
  show ?thesis using mono lo hi drop same by blast
qed

theorem backoff_monotone_up_to_jitter_witness:
  "backoff_before_jitter (1 / 4) 5 \<le> backoff_before_jitter (1 / 4) 6
   \<and> fst (signals (init_backoff True)
          [(100, 0), (101, 0), (102, 0), (103, 0), (104, 9 / 10), (105, 1 / 10)]) ! 4 - 1
       \<le> fst (signals (init_backoff True)
          [(100, 0), (101, 0), (102, 0), (103, 0), (104, 9 / 10), (105, 1 / 10)]) ! 5"
proof -
  let ?rest = "[(101, 0), (102, 0), (103, 0), (104, 9 / 10), (105 :: real, 1 / 10 :: real)]"
  have b: "0 < rate_backoff_base (init_backoff True)"
    by (simp add: init_backoff_def)
  have w: "window_expired (init_backoff True) 100"
    by (simp add: window_expired_def init_backoff_def)
  have r: "\<forall>p\<in>set ?rest. fst p - 100 \<le> 60" by simp
  have u: "\<forall>p\<in>set ((100, 0) # ?rest). 0 \<le> snd p \<and> snd p \<le> 1" by simp
  have l: "5 < length (fst (signals (init_backoff True) ((100, 0) # ?rest)))"
    using signals_length[of "init_backoff True" "(100, 0) # ?rest"] by (simp del: signals.simps)
  have ij: "(4 :: nat) \<le> 5" by simp
  from backoff_monotone_up_to_jitter[OF b w r u refl ij l]
  show ?thesis by (simp add: init_backoff_def del: signals.simps)
qed

text \<open>
  Claim C4 as stated fails: in fast mode the fifth and the sixth signal of one window both
  have the delay 10 before jitter; with the draws 0.9 and then 0.1 the returned delays
  are 10.9 and then 10.1.
\<close>

theorem backoff_not_monotone_counterexample:
  "fst (signals (init_backoff True)
          [(100, 0), (101, 0), (102, 0), (103, 0), (104, 9 / 10), (105, 1 / 10)]) ! 4 = 109 / 10
   \<and> fst (signals (init_backoff True)
          [(100, 0), (101, 0), (102, 0), (103, 0), (104, 9 / 10), (105, 1 / 10)]) ! 5 = 101 / 10
   \<and> \<not> sorted (fst (signals (init_backoff True)
          [(100, 0), (101, 0), (102, 0), (103, 0), (104, 9 / 10), (105, 1 / 10)]))"
proof -
  let ?rest = "[(101, 0), (102, 0), (103, 0), (104, 9 / 10), (105 :: real, 1 / 10 :: real)]"
  let ?ds = "fst (signals (init_backoff True) ((100, 0) # ?rest))"
  have w: "window_expired (init_backoff True) 100"
    by (simp add: window_expired_def init_backoff_def)
  have r: "\<forall>t\<in>set (map fst ?rest). t - 100 \<le> 60" by simp
  have a: "?ds ! 4 = 109 / 10"
    using signals_new_window[OF w r, of 4 0]
    by (simp add: init_backoff_def backoff_before_jitter_def uniform_def)
  have b: "?ds ! 5 = 101 / 10"
    using signals_new_window[OF w r, of 5 0]
    by (simp add: init_backoff_def backoff_before_jitter_def uniform_def)
  have l: "length ?ds = 6"
    using signals_length[of "init_backoff True" "(100, 0) # ?rest"] by (simp del: signals.simps)
  have "\<not> sorted ?ds"
  proof
    assume "sorted ?ds"
    then have "?ds ! 4 \<le> ?ds ! 5"
      using l by (intro sorted_nth_mono) simp_all
    then show False using a b by simp
  qed
  with a b show ?thesis by blast
qed

section \<open>Properties of key normalization\<close>

lemma canonical_key_idem: "canonical_key (canonical_key k) = canonical_key k"
  by (simp add: canonical_key_def mapping_def)

lemma canonical_key_Quantity: "canonical_key ''Quantity'' = ''Quantity''"
  by (simp add: canonical_key_def mapping_def)

lemma update_fresh: "k \<notin> fst ` set al \<Longrightarrow> AList.update k v al = al @ [(k, v)]"
  by (induction al) auto

lemma fold_set_fixed_keys:
  assumes "distinct (map fst xs)" "\<forall>k\<in>fst ` set xs. f k = k" "fst ` set acc \<inter> fst ` set xs = {}"
  shows "fold (\<lambda>(k, v) act. dict_set act (f k) v) xs acc = acc @ xs"
  using assms
proof (induction xs arbitrary: acc)
  case Nil
  then show ?case by simp
next
  case (Cons p xs)
  obtain k v where p: "p = (k, v)" by (cases p)
  have fk: "f k = k" using Cons.prems(2) p by simp
  have fresh: "k \<notin> fst ` set acc" using Cons.prems(3) p by auto
  have step: "dict_set acc (f k) v = acc @ [(k, v)]"
    using fresh by (simp add: dict_set_def fk update_fresh)
  have "fold (\<lambda>(k, v) act. dict_set act (f k) v) xs (acc @ [(k, v)]) = (acc @ [(k, v)]) @ xs"
    using Cons.prems p by (intro Cons.IH) auto
  then show ?case by (simp add: p step)
qed

lemma fold_set_keys:
  "fst ` set (fold (\<lambda>(k, v) act. dict_set act (f k) v) xs acc) \<subseteq> fst ` set acc \<union> f ` fst ` set xs"
proof (induction xs arbitrary: acc)
  case Nil
  then show ?case by simp
next
  case (Cons p xs)
  obtain k v where p: "p = (k, v)" by (cases p)
  show ?case
    using Cons.IH[of "dict_set acc (f k) v"]
    by (auto simp: p dict_set_def dom_update)
qed

lemma fold_set_distinct:
  "distinct (map fst acc) \<Longrightarrow> distinct (map fst (fold (\<lambda>(k, v) act. dict_set act (f k) v) xs acc))"
proof (induction xs arbitrary: acc)
  case Nil
  then show ?case by simp
next
  case (Cons p xs)
  obtain k v where p: "p = (k, v)" by (cases p)
  have "distinct (map fst (dict_set acc (f k) v))"
    using Cons.prems by (simp add: dict_set_def distinct_update)
  from Cons.IH[OF this] show ?case by (simp add: p)
qed

lemma normalize_fold_fixed:
  fixes activity :: pydict
  defines "act \<equiv> fold (\<lambda>(k, v) act. dict_set act (canonical_key k) v) activity []"
  shows "distinct (map fst act)" and "\<forall>k\<in>fst ` set act. canonical_key k = k"
proof -
  show "distinct (map fst act)"
    unfolding act_def by (intro fold_set_distinct) simp
  have "fst ` set act \<subseteq> canonical_key ` fst ` set activity"
    unfolding act_def using fold_set_keys[of canonical_key activity "[]"] by simp
  then show "\<forall>k\<in>fst ` set act. canonical_key k = k"
    using canonical_key_idem by auto
qed

lemma dict_set_fixed:
  assumes "distinct (map fst d)" "\<forall>k\<in>fst ` set d. f k = k" "f q = q"
  shows "distinct (map fst (dict_set d q v))" and "\<forall>k\<in>fst ` set (dict_set d q v). f k = k"
  using assms by (auto simp: dict_set_def distinct_update dom_update)

lemma normalized_Quantity:
  "dict_get (normalize_activity_keys x) ''Quantity'' \<noteq> None
   \<and> dict_get (normalize_activity_keys x) ''Quantity'' \<noteq> Some PNone
   \<and> dict_get (normalize_activity_keys x) ''Quantity'' \<noteq> Some (PStr [])"
  by (simp add: normalize_activity_keys_def Let_def dict_get_def dict_set_def update_conv')

lemma normalize_fixed:
  "distinct (map fst (normalize_activity_keys x))
   \<and> (\<forall>k\<in>fst ` set (normalize_activity_keys x). canonical_key k = k)"
proof -
  define act where "act = fold (\<lambda>(k, v) act. dict_set act (canonical_key k) v) x []"
  have a: "distinct (map fst act)" "\<forall>k\<in>fst ` set act. canonical_key k = k"
    unfolding act_def by (rule normalize_fold_fixed)+
  have q: "distinct (map fst (dict_set act ''Quantity'' (PInt 1)))"
          "\<forall>k\<in>fst ` set (dict_set act ''Quantity'' (PInt 1)). canonical_key k = k"
    using dict_set_fixed[OF a canonical_key_Quantity] by blast+
  have "normalize_activity_keys x = act \<or> normalize_activity_keys x = dict_set act ''Quantity'' (PInt 1)"
    unfolding normalize_activity_keys_def Let_def act_def by (rule if_split[THEN iffD2]) blast
  then show ?thesis using a q by metis
qed

text \<open>
  Claim C9. Normalizing twice gives the same record as normalizing once: after the first
  pass no key is a legacy name, the keys are distinct and \<^verbatim>\<open>Quantity\<close> holds a value
  other than \<^verbatim>\<open>None\<close> and the empty string, so the second pass rebuilds the record
  item by item, in the same order, and leaves \<^verbatim>\<open>Quantity\<close> alone.
\<close>

theorem normalize_activity_keys_idempotent:
  "normalize_activity_keys (normalize_activity_keys x) = normalize_activity_keys x"
proof -
  let ?n = "normalize_activity_keys x"
  have again: "fold (\<lambda>(k, v) act. dict_set act (canonical_key k) v) ?n [] = ?n"
    using fold_set_fixed_keys[of ?n canonical_key "[]"] normalize_fixed[of x] by simp
  have "normalize_activity_keys ?n =
          (if dict_get ?n ''Quantity'' = None \<or> dict_get ?n ''Quantity'' = Some PNone
              \<or> dict_get ?n ''Quantity'' = Some (PStr [])
           then dict_set ?n ''Quantity'' (PInt 1) else ?n)"
    by (subst normalize_activity_keys_def) (simp only: again Let_def)
  then show ?thesis
    using normalized_Quantity[of x] by (simp only: if_False simp_thms)
qed

section \<open>Properties of the technology chooser\<close>

lemma length_take_distinct: "length acc \<le> 1 \<Longrightarrow> length (take_distinct acc xs) \<le> 2"
proof (induction xs arbitrary: acc)
  case Nil
  then show ?case by simp
next
  case (Cons a xs)
  let ?acc' = "if a \<in> set acc then acc else acc @ [a]"
  have l: "length ?acc' \<le> 2" using Cons.prems by simp
  show ?case
  proof (cases "2 \<le> length ?acc'")
    case True
    then show ?thesis using l by (simp add: Let_def)
  next
    case False
    then have "length ?acc' \<le> 1" by simp
    from Cons.IH[OF this] show ?thesis using False by (simp add: Let_def)
  qed
qed

lemma length_take_distinct_nonempty:
  "length acc \<le> 1 \<Longrightarrow> length (take_distinct_nonempty acc xs) \<le> 2"
proof (induction xs arbitrary: acc)
  case Nil
  then show ?case by simp
next
  case (Cons a xs)
  let ?acc' = "if a \<in> set acc then acc else acc @ [a]"
  have l: "length ?acc' \<le> 2" using Cons.prems by simp
  show ?case
  proof (cases "a = []")
    case True
    then show ?thesis using Cons.IH[OF Cons.prems] by simp
  next
    case ne: False
    show ?thesis
    proof (cases "2 \<le> length ?acc'")
      case True
      then show ?thesis using l ne by (simp add: Let_def)
    next
      case False
      then have "length ?acc' \<le> 1" by simp
      from Cons.IH[OF this] show ?thesis using False ne by (simp add: Let_def)
    qed
  qed
qed

lemma set_take_distinct: "set (take_distinct acc xs) \<subseteq> set acc \<union> set xs"
proof (induction xs arbitrary: acc)
  case Nil
  then show ?case by simp
next
  case (Cons a xs)
  let ?acc' = "if a \<in> set acc then acc else acc @ [a]"
  have s: "set ?acc' \<subseteq> set acc \<union> {a}" by auto
  show ?case
  proof (cases "2 \<le> length ?acc'")
    case True
    then show ?thesis using s by (auto simp: Let_def)
  next
    case False
    have "set (take_distinct ?acc' xs) \<subseteq> set ?acc' \<union> set xs" by (rule Cons.IH)
    then have "set (take_distinct ?acc' xs) \<subseteq> set acc \<union> set (a # xs)" using s by auto
    then show ?thesis using False by (simp add: Let_def)
  qed
qed

lemma set_take_distinct_nonempty: "set (take_distinct_nonempty acc xs) \<subseteq> set acc \<union> set xs"
proof (induction xs arbitrary: acc)
  case Nil
  then show ?case by simp
next
  case (Cons a xs)
  let ?acc' = "if a \<in> set acc then acc else acc @ [a]"
  have s: "set ?acc' \<subseteq> set acc \<union> {a}" by auto
  show ?case
  proof (cases "a = []")
    case True
    then show ?thesis using Cons.IH[of acc] by auto
  next
    case ne: False
    show ?thesis
    proof (cases "2 \<le> length ?acc'")
      case True
      then show ?thesis using s ne by (auto simp: Let_def)
    next
      case False
      have "set (take_distinct_nonempty ?acc' xs) \<subseteq> set ?acc' \<union> set xs" by (rule Cons.IH)
      then have "set (take_distinct_nonempty ?acc' xs) \<subseteq> set acc \<union> set (a # xs)" using s by auto
      then show ?thesis using False ne by (simp add: Let_def)
    qed
  qed
qed

lemma length_pad_two: "length xs \<le> 2 \<Longrightarrow> length (pad_two xs) = 2"
  by (simp add: pad_two_def)

lemma set_pad_two: "set (pad_two xs) \<subseteq> set xs \<union> {[]}"
  by (auto simp: pad_two_def)

lemma set_sort_reverse: "set (sort_reverse xs) = set xs"
  by (simp add: sort_reverse_def)

lemma set_primary_opts: "set (primary_opts topts) \<subseteq> set (primary topts) \<union> set (additional topts)"
  by (simp add: primary_opts_def)

lemma set_scored_add:
  "snd ` set (scored_add tokens topts) \<subseteq> set (primary topts) \<union> set (additional topts)"
  using set_primary_opts[of topts]
  by (auto simp: scored_add_def Let_def set_sort_reverse)

lemma set_additional_choices:
  "set (additional_choices tokens topts) \<subseteq> set (primary topts) \<union> set (additional topts) \<union> {[]}"
proof -
  let ?c1 = "take_distinct [] (map snd (scored_add tokens topts))"
  let ?pool = "filter (\<lambda>opt. Some opt \<noteq> primary_choice tokens topts)
                 (additional topts @ primary_opts topts)"
  let ?U = "set (primary topts) \<union> set (additional topts)"
  have c1: "set ?c1 \<subseteq> ?U"
    using set_take_distinct[of "[]" "map snd (scored_add tokens topts)"] set_scored_add[of tokens topts]
    by auto
  have pool: "set ?pool \<subseteq> ?U"
    using set_primary_opts[of topts] by auto
  have c2: "set (take_distinct ?c1 ?pool) \<subseteq> ?U"
    using set_take_distinct[of ?c1 ?pool] c1 pool by blast
  have "set (if length ?c1 < 2 then take_distinct ?c1 ?pool else ?c1) \<subseteq> ?U"
    using c1 c2 by simp
  then show ?thesis
    unfolding additional_choices_def Let_def
    using set_pad_two[of "if length ?c1 < 2 then take_distinct ?c1 ?pool else ?c1"] by blast
qed

lemma hd_sort_reverse_mem: "xs \<noteq> [] \<Longrightarrow> hd (sort_reverse xs) \<in> set xs"
proof -
  assume "xs \<noteq> []"
  then have "sort_reverse xs \<noteq> []"
    using length_sort[of "\<lambda>x. x" xs] by (auto simp: sort_reverse_def simp del: length_sort)
  then have "hd (sort_reverse xs) \<in> set (sort_reverse xs)" by (rule hd_in_set)
  then show ?thesis by (simp add: set_sort_reverse)
qed

lemma primary_choice_mem:
  "primary_choice tokens topts = Some p \<Longrightarrow> p \<in> set (primary topts) \<union> set (additional topts)"
proof -
  assume a: "primary_choice tokens topts = Some p"
  let ?sp = "map (\<lambda>opt. (score tokens opt, opt)) (primary_opts topts)"
  have h: "?sp \<noteq> [] \<Longrightarrow> snd (hd (sort_reverse ?sp)) \<in> set (primary_opts topts)"
    using hd_sort_reverse_mem[of ?sp] by auto
  have e: "sort_reverse ?sp \<noteq> [] \<Longrightarrow> ?sp \<noteq> []"
    using set_sort_reverse[of ?sp] by (metis set_empty)
  have "p \<in> set (primary_opts topts) \<or> p \<in> set (additional topts)"
    using a h e unfolding primary_choice_def Let_def
    by (auto split: if_splits)
  then show ?thesis using set_primary_opts[of topts] by blast
qed

lemma primary_choice_Some:
  "primary topts \<noteq> [] \<or> additional topts \<noteq> [] \<Longrightarrow> \<exists>p. primary_choice tokens topts = Some p"
  unfolding primary_choice_def Let_def primary_opts_def by (auto split: if_splits)

text \<open>
  Claim C5, as amended. For every title, description and option set the chooser returns
  exactly two additional slots, each the empty string or an option of the set. The main
  choice is a non-empty option of the set whenever the set has an option and no entry of
  it is the empty string.
\<close>

theorem choose_tech_areas_slots:
  "length (snd (choose_tech_areas title description topts)) = 2
   \<and> (\<forall>a\<in>set (snd (choose_tech_areas title description topts)).
         a = [] \<or> a \<in> set (primary topts) \<union> set (additional topts))
   \<and> ((primary topts \<noteq> [] \<or> additional topts \<noteq> [])
        \<and> [] \<notin> set (primary topts) \<union> set (additional topts)
        \<longrightarrow> fst (choose_tech_areas title description topts) \<noteq> []
            \<and> fst (choose_tech_areas title description topts)
                  \<in> set (primary topts) \<union> set (additional topts))"
proof -
  let ?tokens = "text_tokens title description"
  let ?cl = "take_distinct_nonempty [] (additional_choices ?tokens topts)"
  have snd_eq: "snd (choose_tech_areas title description topts) = pad_two ?cl"
    by (simp add: choose_tech_areas_def Let_def)
  have fst_eq: "fst (choose_tech_areas title description topts)
                  = (case primary_choice ?tokens topts of None \<Rightarrow> [] | Some p \<Rightarrow> p)"
    by (simp add: choose_tech_areas_def Let_def)
  have len: "length (pad_two ?cl) = 2"
    by (intro length_pad_two length_take_distinct_nonempty) simp
  have "set ?cl \<subseteq> set (additional_choices ?tokens topts)"
    using set_take_distinct_nonempty[of "[]" "additional_choices ?tokens topts"] by simp
  then have els: "set (pad_two ?cl) \<subseteq> set (primary topts) \<union> set (additional topts) \<union> {[]}"
    using set_pad_two[of ?cl] set_additional_choices[of ?tokens topts] by blast
  have main: "fst (choose_tech_areas title description topts) \<noteq> []
              \<and> fst (choose_tech_areas title description topts)
                    \<in> set (primary topts) \<union> set (additional topts)"
    if h: "(primary topts \<noteq> [] \<or> additional topts \<noteq> [])
           \<and> [] \<notin> set (primary topts) \<union> set (additional topts)"
  proof -
    obtain p where p: "primary_choice ?tokens topts = Some p"
      using primary_choice_Some[of topts ?tokens] h by blast
    have "p \<in> set (primary topts) \<union> set (additional topts)"
      using primary_choice_mem[OF p] .
    then show ?thesis using h p fst_eq by auto
  qed
  show ?thesis
    using len els main unfolding snd_eq by blast
qed

theorem choose_tech_areas_slots_witness:
  "choose_tech_areas ''Intro to Azure Functions'' ''Uses Python and serverless''
     \<lparr>primary = [''Cloud Computing'', ''Web Development''],
      additional = [''Python'', ''JavaScript'']\<rparr>
     = (''Cloud Computing'', [''Python'', ''Web Development''])
   \<and> length (snd (choose_tech_areas ''Intro to Azure Functions'' ''Uses Python and serverless''
        \<lparr>primary = [''Cloud Computing'', ''Web Development''],
         additional = [''Python'', ''JavaScript'']\<rparr>)) = 2
   \<and> fst (choose_tech_areas ''Intro to Azure Functions'' ''Uses Python and serverless''
        \<lparr>primary = [''Cloud Computing'', ''Web Development''],
         additional = [''Python'', ''JavaScript'']\<rparr>) \<noteq> []"
proof -
  let ?o = "\<lparr>primary = [''Cloud Computing'', ''Web Development''],
             additional = [''Python'', ''JavaScript'']\<rparr>"
  have v: "choose_tech_areas ''Intro to Azure Functions'' ''Uses Python and serverless'' ?o
             = (''Cloud Computing'', [''Python'', ''Web Development''])"
    by code_simp
  have h: "(primary ?o \<noteq> [] \<or> additional ?o \<noteq> []) \<and> [] \<notin> set (primary ?o) \<union> set (additional ?o)"
    by simp
  from choose_tech_areas_slots[of "''Intro to Azure Functions''" "''Uses Python and serverless''" ?o] h
  have "length (snd (choose_tech_areas ''Intro to Azure Functions'' ''Uses Python and serverless'' ?o)) = 2
        \<and> fst (choose_tech_areas ''Intro to Azure Functions'' ''Uses Python and serverless'' ?o) \<noteq> []"
    by blast
  with v show ?thesis by blast
qed

text \<open>
  Claim C5 as stated fails for an option set with an empty-string entry: when no option
  scores above zero the main choice is the first entry of the primary list, here the
  empty string, although the set holds the option \<^verbatim>\<open>Azure\<close>.
\<close>

theorem choose_tech_areas_empty_main_counterexample:
  "primary \<lparr>primary = ['''', ''Azure''], additional = []\<rparr> \<noteq> []
   \<and> choose_tech_areas ''Hello'' '''' \<lparr>primary = ['''', ''Azure''], additional = []\<rparr>
       = ('''', [''Azure'', ''''])"
proof -
  have "choose_tech_areas ''Hello'' '''' \<lparr>primary = ['''', ''Azure''], additional = []\<rparr>
       = ('''', [''Azure'', ''''])"
    by code_simp
  then show ?thesis by simp
qed

lemma sorted_sort_reverse: "sorted_wrt (\<lambda>x y. y \<le> x) (sort_reverse xs)"
  by (simp add: sort_reverse_def sorted_wrt_rev)

lemma sort_reverse_Nil_iff: "sort_reverse xs = [] \<longleftrightarrow> xs = []"
  using set_sort_reverse[of xs] by (metis set_empty)

lemma hd_sort_reverse_greatest:
  assumes "x \<in> set xs"
  shows "x \<le> hd (sort_reverse xs)"
proof -
  have x: "x \<in> set (sort_reverse xs)" using assms by (simp add: set_sort_reverse)
  then obtain y ys where e: "sort_reverse xs = y # ys" by (cases "sort_reverse xs") auto
  have "\<forall>z\<in>set ys. z \<le> y"
    using sorted_sort_reverse[of xs] e by simp
  then show ?thesis using x e by auto
qed

lemma primary_choice_scored:
  assumes "c \<in> set (primary_opts topts)" "0 < score tokens c"
  shows "\<exists>m\<in>set (primary_opts topts). primary_choice tokens topts = Some m
           \<and> (\<forall>c'\<in>set (primary_opts topts). (score tokens c', c') \<le> (score tokens m, m))"
proof -
  let ?sp = "map (\<lambda>opt. (score tokens opt, opt)) (primary_opts topts)"
  let ?h = "hd (sort_reverse ?sp)"
  have ne: "?sp \<noteq> []" using assms(1) by auto
  have "?h \<in> set ?sp" using hd_sort_reverse_mem[OF ne] .
  then obtain m where m: "m \<in> set (primary_opts topts)" "?h = (score tokens m, m)" by auto
  have g: "(score tokens c', c') \<le> ?h" if "c' \<in> set (primary_opts topts)" for c'
    using hd_sort_reverse_greatest[of "(score tokens c', c')" ?sp] that by auto
  have "(score tokens c, c) \<le> (score tokens m, m)" using g[OF assms(1)] m(2) by simp
  then have pos: "0 < fst ?h" using assms(2) m(2) by (auto simp: less_eq_prod_def)
  have "primary_choice tokens topts = Some m"
    using ne pos m(2) by (simp add: primary_choice_def Let_def sort_reverse_Nil_iff)
  then show ?thesis using m g by auto
qed

lemma primary_choice_unscored:
  assumes "\<forall>c\<in>set (primary_opts topts). score tokens c \<le> 0" "primary_opts topts \<noteq> []"
  shows "primary_choice tokens topts = Some (hd (primary_opts topts))"
proof -
  let ?sp = "map (\<lambda>opt. (score tokens opt, opt)) (primary_opts topts)"
  have ne: "?sp \<noteq> []" using assms(2) by simp
  have "hd (sort_reverse ?sp) \<in> set ?sp" using hd_sort_reverse_mem[OF ne] .
  then have "fst (hd (sort_reverse ?sp)) \<le> 0" using assms(1) by auto
  then show ?thesis using assms(2) by (simp add: primary_choice_def Let_def)
qed

lemma take_distinct_keeps: "set acc \<subseteq> set (take_distinct acc xs)"
proof (induction xs arbitrary: acc)
  case Nil
  then show ?case by simp
next
  case (Cons a xs)
  let ?acc' = "if a \<in> set acc then acc else acc @ [a]"
  have "set acc \<subseteq> set ?acc'" by auto
  moreover have "set ?acc' \<subseteq> set (take_distinct ?acc' xs)" by (rule Cons.IH)
  ultimately show ?case by (auto simp: Let_def)
qed

lemma take_distinct_absorb: "set xs \<subseteq> set acc \<Longrightarrow> take_distinct acc xs = acc"
  by (induction xs arbitrary: acc) (auto simp: Let_def)

lemma take_distinct_short:
  "length (take_distinct acc xs) < 2 \<Longrightarrow> set xs \<subseteq> set (take_distinct acc xs)"
proof (induction xs arbitrary: acc)
  case Nil
  then show ?case by simp
next
  case (Cons a xs)
  let ?acc' = "if a \<in> set acc then acc else acc @ [a]"
  have short: "\<not> 2 \<le> length ?acc'"
  proof
    assume "2 \<le> length ?acc'"
    then have "take_distinct acc (a # xs) = ?acc'" by (simp add: Let_def)
    then show False using Cons.prems \<open>2 \<le> length ?acc'\<close> by simp
  qed
  then have e: "take_distinct acc (a # xs) = take_distinct ?acc' xs" by (simp add: Let_def)
  have "set xs \<subseteq> set (take_distinct ?acc' xs)"
    using Cons.IH[of ?acc'] Cons.prems e by simp
  moreover have "a \<in> set (take_distinct ?acc' xs)"
    using take_distinct_keeps[of ?acc' xs] by auto
  ultimately show ?case using e by simp
qed

lemma take_distinct_second:
  assumes "take_distinct [x] rest = res" "length res = 2"
  shows "\<exists>pre y tail. rest = pre @ y # tail \<and> set pre \<subseteq> {x} \<and> y \<noteq> x \<and> res = [x, y]"
  using assms
proof (induction rest)
  case Nil
  then show ?case by auto
next
  case (Cons a rest)
  show ?case
  proof (cases "a = x")
    case True
    then have "take_distinct [x] rest = res" using Cons.prems(1) by (simp add: Let_def)
    from Cons.IH[OF this Cons.prems(2)]
    obtain pre y tail where "rest = pre @ y # tail" "set pre \<subseteq> {x}" "y \<noteq> x" "res = [x, y]"
      by blast
    then have "a # rest = (a # pre) @ y # tail \<and> set (a # pre) \<subseteq> {x} \<and> y \<noteq> x \<and> res = [x, y]"
      using True by simp
    then show ?thesis by blast
  next
    case False
    then have "res = [x, a]" using Cons.prems(1) by (simp add: Let_def)
    then have "a # rest = [] @ a # rest \<and> set [] \<subseteq> {x} \<and> a \<noteq> x \<and> res = [x, a]"
      using False by simp
    then show ?thesis by blast
  qed
qed

lemma take_distinct_two:
  assumes "take_distinct [] L = [x, y]"
  shows "\<exists>pre tail. L = x # pre @ y # tail \<and> set pre \<subseteq> {x} \<and> y \<noteq> x"
proof (cases L)
  case Nil
  then show ?thesis using assms by simp
next
  case (Cons a rest)
  then have t: "take_distinct [a] rest = [x, y]" using assms by (simp add: Let_def)
  from take_distinct_second[OF t]
  obtain pre y' tail where d: "rest = pre @ y' # tail" "set pre \<subseteq> {a}" "y' \<noteq> a" "[x, y] = [a, y']"
    by auto
  then show ?thesis using Cons by auto
qed

lemma scored_add_keys:
  "map (\<lambda>opt. (score tokens opt, opt)) (map snd (scored_add tokens topts)) = scored_add tokens topts"
proof -
  have "\<forall>e\<in>set (scored_add tokens topts). (score tokens (snd e), snd e) = e"
    by (auto simp: scored_add_def Let_def set_sort_reverse)
  then show ?thesis by (simp add: map_idI)
qed

lemma sorted_scored_add:
  "sorted_wrt (\<lambda>a b. (score tokens b, b) \<le> (score tokens a, a)) (map snd (scored_add tokens topts))"
proof -
  have "sorted_wrt (\<lambda>x y. y \<le> x)
          (map (\<lambda>opt. (score tokens opt, opt)) (map snd (scored_add tokens topts)))"
    unfolding scored_add_keys unfolding scored_add_def Let_def by (rule sorted_sort_reverse)
  then show ?thesis by (simp only: sorted_wrt_map)
qed

lemma set_scored_add_eq:
  "set (map snd (scored_add tokens topts))
     = {c \<in> set (additional topts) \<union> set (primary_opts topts). Some c \<noteq> primary_choice tokens topts}"
proof -
  define cand where "cand = filter (\<lambda>opt. Some opt \<noteq> primary_choice tokens topts)
     (additional topts @ filter (\<lambda>opt. opt \<notin> set (additional topts)) (primary_opts topts))"
  have 1: "scored_add tokens topts = sort_reverse (map (\<lambda>opt. (score tokens opt, opt)) cand)"
    by (simp add: scored_add_def Let_def cand_def)
  have 2: "set (map snd (sort_reverse (map (\<lambda>opt. (score tokens opt, opt)) cand))) = set cand"
    by (simp add: set_sort_reverse image_image)
  have 3: "set cand = {c \<in> set (additional topts) \<union> set (primary_opts topts).
                        Some c \<noteq> primary_choice tokens topts}"
    by (auto simp: cand_def)
  show ?thesis unfolding 1 2 3 ..
qed

lemma pad_two_simps:
  "pad_two [] = [[], []]" "pad_two [p] = [p, []]" "pad_two [p, q] = [p, q]"
  by (simp_all add: pad_two_def numeral_2_eq_2)

lemma additional_choices_eq:
  "additional_choices tokens topts = pad_two (take_distinct [] (map snd (scored_add tokens topts)))"
proof -
  let ?L = "map snd (scored_add tokens topts)"
  let ?c1 = "take_distinct [] ?L"
  let ?pool = "filter (\<lambda>opt. Some opt \<noteq> primary_choice tokens topts)
                 (additional topts @ primary_opts topts)"
  have "take_distinct ?c1 ?pool = ?c1" if "length ?c1 < 2"
  proof -
    have "set ?L \<subseteq> set ?c1" using take_distinct_short[OF that] .
    moreover have "set ?pool \<subseteq> set ?L" unfolding set_scored_add_eq by auto
    ultimately have "set ?pool \<subseteq> set ?c1" by blast
    then show ?thesis by (rule take_distinct_absorb)
  qed
  then have "(if length ?c1 < 2 then take_distinct ?c1 ?pool else ?c1) = ?c1" by simp
  then show ?thesis unfolding additional_choices_def Let_def by simp
qed

lemma both_slots_filled:
  assumes c1: "take_distinct [] L = c1"
      and adds: "adds = pad_two (take_distinct_nonempty [] (pad_two c1))"
      and filled: "adds ! 0 \<noteq> []" "adds ! 1 \<noteq> []"
  shows "c1 = [adds ! 0, adds ! 1]"
proof -
  have len: "length c1 \<le> 2" using length_take_distinct[of "[]" L] c1 by simp
  consider "c1 = []" | p where "c1 = [p]" | p q where "c1 = [p, q]"
    using len by (cases c1; cases "tl c1"; cases "tl (tl c1)") auto
  then show ?thesis
  proof cases
    case 1
    then show ?thesis using adds filled by (simp add: pad_two_simps)
  next
    case 2
    then show ?thesis using adds filled by (cases "p = []") (simp_all add: pad_two_simps Let_def)
  next
    case 3
    then have "p \<noteq> q" using take_distinct_two[of L p q] c1 by auto
    then show ?thesis
      using 3 adds filled
      by (cases "p = []"; cases "q = []") (simp_all add: pad_two_simps Let_def)
  qed
qed

lemma key_le_iff:
  "(score tokens c, c) \<le> (score tokens m, m)
     \<longleftrightarrow> score tokens c < score tokens m \<or> (score tokens c = score tokens m \<and> c \<le> m)"
  by (auto simp: less_eq_prod_def)

text \<open>
  Claim C7, as amended. The scored candidates are sorted as \<^verbatim>\<open>(score, option)\<close>
  tuples in descending order, so among candidates with the same score the one that is
  greatest in string order comes first, not the one seen first. When some candidate of
  the main list scores above zero, the main choice is a candidate of that list whose
  tuple is the greatest; when none does, it is the first entry of the list. When both
  additional slots are filled, the first is above the second in that tuple order, and
  every other candidate is at or below the second.
\<close>

theorem choose_tech_areas_tie_break:
  assumes r: "choose_tech_areas title description topts = (main, adds)"
      and tok: "tokens = text_tokens title description"
  shows "((\<exists>c\<in>set (primary_opts topts). 0 < score tokens c) \<longrightarrow>
            main \<in> set (primary_opts topts)
            \<and> (\<forall>c\<in>set (primary_opts topts).
                  score tokens c < score tokens main
                  \<or> (score tokens c = score tokens main \<and> c \<le> main)))
         \<and> (primary_opts topts \<noteq> [] \<and> (\<forall>c\<in>set (primary_opts topts). score tokens c \<le> 0) \<longrightarrow>
              main = hd (primary_opts topts))
         \<and> (adds ! 0 \<noteq> [] \<and> adds ! 1 \<noteq> [] \<longrightarrow>
              (score tokens (adds ! 1) < score tokens (adds ! 0)
               \<or> (score tokens (adds ! 1) = score tokens (adds ! 0) \<and> adds ! 1 < adds ! 0))
              \<and> (\<forall>c\<in>set (additional topts) \<union> set (primary_opts topts).
                    c \<noteq> main \<and> c \<noteq> adds ! 0 \<longrightarrow>
                    score tokens c < score tokens (adds ! 1)
                    \<or> (score tokens c = score tokens (adds ! 1) \<and> c \<le> adds ! 1)))"
proof -
  let ?pc = "primary_choice tokens topts"
  have main: "main = (case ?pc of None \<Rightarrow> [] | Some p \<Rightarrow> p)"
    using r tok by (simp add: choose_tech_areas_def Let_def)
  have adds: "adds = pad_two (take_distinct_nonempty []
                 (pad_two (take_distinct [] (map snd (scored_add tokens topts)))))"
    using r tok by (simp add: choose_tech_areas_def Let_def additional_choices_eq)
  have p1: "main \<in> set (primary_opts topts)
            \<and> (\<forall>c\<in>set (primary_opts topts).
                  score tokens c < score tokens main
                  \<or> (score tokens c = score tokens main \<and> c \<le> main))"
    if ex: "\<exists>c\<in>set (primary_opts topts). 0 < score tokens c"
  proof -
    obtain c where "c \<in> set (primary_opts topts)" "0 < score tokens c" using ex by blast
    from primary_choice_scored[OF this]
    obtain m where m: "m \<in> set (primary_opts topts)" "?pc = Some m"
      "\<forall>c'\<in>set (primary_opts topts). (score tokens c', c') \<le> (score tokens m, m)"
      by blast
    have "main = m" using main m(2) by simp
    moreover have "\<forall>c'\<in>set (primary_opts topts).
        score tokens c' < score tokens m \<or> (score tokens c' = score tokens m \<and> c' \<le> m)"
      using m(3) unfolding key_le_iff .
    ultimately show ?thesis using m(1) by blast
  qed
  have p2: "main = hd (primary_opts topts)"
    if "primary_opts topts \<noteq> [] \<and> (\<forall>c\<in>set (primary_opts topts). score tokens c \<le> 0)"
    using primary_choice_unscored[of topts tokens] that main by simp
  have p3: "(score tokens (adds ! 1) < score tokens (adds ! 0)
               \<or> (score tokens (adds ! 1) = score tokens (adds ! 0) \<and> adds ! 1 < adds ! 0))
            \<and> (\<forall>c\<in>set (additional topts) \<union> set (primary_opts topts).
                    c \<noteq> main \<and> c \<noteq> adds ! 0 \<longrightarrow>
                    score tokens c < score tokens (adds ! 1)
                    \<or> (score tokens c = score tokens (adds ! 1) \<and> c \<le> adds ! 1))"
    if filled: "adds ! 0 \<noteq> [] \<and> adds ! 1 \<noteq> []"
  proof -
    let ?L = "map snd (scored_add tokens topts)"
    let ?a = "adds ! 0" and ?b = "adds ! 1"
    have c1: "take_distinct [] ?L = [?a, ?b]"
      using both_slots_filled[OF refl adds] filled by blast
    from take_distinct_two[OF c1]
    obtain pre tail where L: "?L = ?a # pre @ ?b # tail" "set pre \<subseteq> {?a}" "?b \<noteq> ?a"
      by (elim exE conjE)
    have srt: "sorted_wrt (\<lambda>a b. (score tokens b, b) \<le> (score tokens a, a)) (?a # pre @ ?b # tail)"
      using sorted_scored_add[of tokens topts] L(1) by simp
    have ab: "(score tokens ?b, ?b) \<le> (score tokens ?a, ?a)"
      using srt by simp
    have tl: "\<forall>t\<in>set tail. (score tokens t, t) \<le> (score tokens ?b, ?b)"
      using srt by (simp add: sorted_wrt_append)
    have first: "score tokens ?b < score tokens ?a
                 \<or> (score tokens ?b = score tokens ?a \<and> ?b < ?a)"
      using ab[unfolded key_le_iff] L(3) by auto
    have rest: "score tokens c < score tokens ?b \<or> (score tokens c = score tokens ?b \<and> c \<le> ?b)"
      if c: "c \<in> set (additional topts) \<union> set (primary_opts topts)" "c \<noteq> main" "c \<noteq> ?a" for c
    proof -
      have "Some c \<noteq> ?pc" using c(2) main by (cases ?pc) auto
      then have "c \<in> set ?L" unfolding set_scored_add_eq using c(1) by simp
      then have "c = ?b \<or> c \<in> set tail" using L(1,2) c(3) by auto
      then have "(score tokens c, c) \<le> (score tokens ?b, ?b)" using tl by auto
      then show ?thesis unfolding key_le_iff .
    qed
    show ?thesis using first rest by blast
  qed
  show ?thesis using p1 p2 p3 by blast
qed

theorem choose_tech_areas_tie_break_witness:
  "fst (choose_tech_areas ''Computing technology'' ''''
          \<lparr>primary = [''Cloud Computing'', ''Database Technology''], additional = []\<rparr>)
     \<in> set [''Cloud Computing'', ''Database Technology'']
   \<and> ''Cloud Computing'' \<le> fst (choose_tech_areas ''Computing technology'' ''''
          \<lparr>primary = [''Cloud Computing'', ''Database Technology''], additional = []\<rparr>)
   \<and> fst (choose_tech_areas ''Intro to Azure Functions'' ''Uses Python and serverless''
          \<lparr>primary = [''Cloud Computing'', ''Web Development''],
           additional = [''Python'', ''JavaScript'']\<rparr>) = ''Cloud Computing''
   \<and> ''JavaScript'' \<le> snd (choose_tech_areas ''Intro to Azure Functions'' ''Uses Python and serverless''
          \<lparr>primary = [''Cloud Computing'', ''Web Development''],
           additional = [''Python'', ''JavaScript'']\<rparr>) ! 1"
proof -
  let ?o1 = "\<lparr>primary = [''Cloud Computing'', ''Database Technology''], additional = []\<rparr>"
  let ?t1 = "text_tokens ''Computing technology'' ''''"
  let ?o2 = "\<lparr>primary = [''Cloud Computing'', ''Web Development''],
              additional = [''Python'', ''JavaScript'']\<rparr>"
  let ?t2 = "text_tokens ''Intro to Azure Functions'' ''Uses Python and serverless''"
  have v1: "choose_tech_areas ''Computing technology'' '''' ?o1
              = (''Database Technology'', [''Cloud Computing'', ''''])"
    by code_simp
  have v2: "choose_tech_areas ''Intro to Azure Functions'' ''Uses Python and serverless'' ?o2
              = (''Cloud Computing'', [''Python'', ''Web Development''])"
    by code_simp
  have p1: "primary_opts ?o1 = [''Cloud Computing'', ''Database Technology'']"
    by (simp add: primary_opts_def)
  have p2: "primary_opts ?o2 = [''Cloud Computing'', ''Web Development'']"
    by (simp add: primary_opts_def)
  have s1: "score ?t1 ''Cloud Computing'' = 2" "score ?t1 ''Database Technology'' = 2"
    by code_simp+
  have s2: "score ?t2 ''Cloud Computing'' = 0" "score ?t2 ''Web Development'' = 0"
           "score ?t2 ''JavaScript'' = 0"
    by code_simp+
  have h1: "\<exists>c\<in>set (primary_opts ?o1). 0 < score ?t1 c"
    unfolding p1 using s1 by simp
  have a: "''Database Technology'' \<in> set (primary_opts ?o1)
           \<and> (\<forall>c\<in>set (primary_opts ?o1).
                 score ?t1 c < score ?t1 ''Database Technology''
                 \<or> (score ?t1 c = score ?t1 ''Database Technology'' \<and> c \<le> ''Database Technology''))"
    using choose_tech_areas_tie_break[OF v1 refl] h1 by blast
  then have a1: "''Cloud Computing'' \<le> ''Database Technology''"
    unfolding p1 using s1 by simp
  have h2: "primary_opts ?o2 \<noteq> [] \<and> (\<forall>c\<in>set (primary_opts ?o2). score ?t2 c \<le> 0)"
    unfolding p2 using s2 by simp
  have h3: "[''Python'', ''Web Development''] ! 0 \<noteq> [] \<and> [''Python'', ''Web Development''] ! 1 \<noteq> []"
    by simp
  have js: "''JavaScript'' \<in> set (additional ?o2) \<union> set (primary_opts ?o2)
            \<and> ''JavaScript'' \<noteq> ''Cloud Computing'' \<and> ''JavaScript'' \<noteq> [''Python'', ''Web Development''] ! 0"
    by simp
  note t2 = choose_tech_areas_tie_break[OF v2 refl]
  have b0: "''Cloud Computing'' = hd (primary_opts ?o2)"
    using t2[THEN conjunct2, THEN conjunct1] h2 by (rule mp)
  have js1: "''JavaScript'' \<in> set (additional ?o2) \<union> set (primary_opts ?o2)"
    using js by (rule conjunct1)
  have js2: "''JavaScript'' \<noteq> ''Cloud Computing'' \<and> ''JavaScript'' \<noteq> [''Python'', ''Web Development''] ! 0"
    using js by (rule conjunct2)
  have b: "score ?t2 ''JavaScript'' < score ?t2 ([''Python'', ''Web Development''] ! 1)
               \<or> (score ?t2 ''JavaScript'' = score ?t2 ([''Python'', ''Web Development''] ! 1)
                   \<and> ''JavaScript'' \<le> [''Python'', ''Web Development''] ! 1)"
    using t2[THEN conjunct2, THEN conjunct2, THEN mp, OF h3, THEN conjunct2, THEN bspec, OF js1] js2
    by (rule mp)
  then have b1: "''JavaScript'' \<le> ''Web Development''"
    using s2 by simp
  show ?thesis unfolding v1 v2 using a1 b1 by simp
qed

text \<open>
  Claim C7 as stated fails: \<^verbatim>\<open>Cloud Computing\<close> and \<^verbatim>\<open>Database Technology\<close> both
  score 2 for the title \<^verbatim>\<open>Computing technology\<close>; the first-seen rule of the
  specification picks the former, the code returns the latter.
\<close>

theorem choose_tech_areas_first_seen_counterexample:
  "choose_tech_areas ''Computing technology'' ''''
     \<lparr>primary = [''Cloud Computing'', ''Database Technology''], additional = []\<rparr>
     = (''Database Technology'', [''Cloud Computing'', ''''])
   \<and> score (text_tokens ''Computing technology'' '''') ''Cloud Computing''
       = score (text_tokens ''Computing technology'' '''') ''Database Technology''
   \<and> spec_first_best (score (text_tokens ''Computing technology'' ''''))
        [''Cloud Computing'', ''Database Technology''] = Some ''Cloud Computing''"
  by code_simp

section \<open>Properties of the character-limit enforcement\<close>

lemma dict_get_set: "dict_get (dict_set d k v) k' = (if k' = k then Some v else dict_get d k')"
  by (simp add: dict_get_def dict_set_def update_conv')

lemma length_strip: "length (strip s) \<le> length s"
proof -
  have "length (dropWhile is_space (rev (dropWhile is_space s))) \<le> length (rev (dropWhile is_space s))"
    by (rule length_dropWhile_le)
  also have "\<dots> \<le> length s" by (simp add: length_dropWhile_le)
  finally show ?thesis by (simp add: strip_def)
qed

lemma rfind_from_bounds: "rfind_from c s i = -1 \<or> (0 \<le> rfind_from c s i \<and> rfind_from c s i < int i)"
  by (induction i) auto

lemma rfind_bounds: "rfind c s e = -1 \<or> (0 \<le> rfind c s e \<and> rfind c s e < int (min e (length s)))"
  unfolding rfind_def by (rule rfind_from_bounds)

lemma rfind_from_found: "j < i \<Longrightarrow> s ! j = c \<Longrightarrow> rfind_from c s i \<noteq> -1"
  by (induction i) (auto simp: less_Suc_eq)

lemma rfind_found:
  assumes "c \<in> set (take e s)"
  shows "rfind c s e \<noteq> -1"
proof -
  obtain j where j: "j < length (take e s)" "take e s ! j = c"
    using assms by (auto simp: in_set_conv_nth)
  then have "j < min e (length s)" "s ! j = c" by auto
  then show ?thesis unfolding rfind_def by (rule rfind_from_found)
qed

lemma ends_with_punct_stop: "ends_with_punct (s @ ''.'')"
  by (simp add: ends_with_punct_def)

lemma cut_at_punct: "ends_with_punct (cut_at s e)"
  unfolding cut_at_def Let_def by (simp add: ends_with_punct_stop)

lemma cut_at_length:
  assumes "CHR ''.'' \<in> set (take e s) \<or> CHR '' '' \<in> set (take e s)"
  shows "length (cut_at s e) \<le> e"
proof -
  define cutoff where
    "cutoff = (if rfind CHR ''.'' s e = -1 then rfind CHR '' '' s e else rfind CHR ''.'' s e)"
  define new_desc where "new_desc = strip (take (nat cutoff) s)"
  have ne: "cutoff \<noteq> -1"
    using assms rfind_found[of "CHR ''.''" e s] rfind_found[of "CHR '' ''" e s]
    unfolding cutoff_def by auto
  have b: "0 \<le> cutoff \<and> cutoff < int (min e (length s))"
    using ne rfind_bounds[of "CHR ''.''" s e] rfind_bounds[of "CHR '' ''" s e]
    unfolding cutoff_def by (auto split: if_splits)
  have "int (min e (length s)) \<le> int e" by simp
  then have "cutoff < int e" using b by linarith
  then have "nat cutoff < e" using b by (simp add: nat_less_iff)
  moreover have "length new_desc \<le> nat cutoff"
    unfolding new_desc_def using length_strip[of "take (nat cutoff) s"] by simp
  ultimately have l: "length new_desc < e" by simp
  have "cut_at s e = (if \<not> ends_with_punct new_desc then new_desc @ ''.'' else new_desc)"
    unfolding cut_at_def Let_def new_desc_def cutoff_def using ne[unfolded cutoff_def]
    by (simp only: if_True if_False simp_thms)
  then show ?thesis using l by simp
qed

lemma truncated_fallback_punct: "ends_with_punct (truncated_fallback desc)"
  unfolding truncated_fallback_def Let_def by (rule cut_at_punct)

lemma truncated_fallback_length:
  assumes "CHR ''.'' \<in> set (take 850 desc) \<or> CHR '' '' \<in> set (take 850 desc)"
  shows "length (truncated_fallback desc) \<le> 850"
proof -
  let ?tmp = "take 850 desc"
  have "take (length ?tmp) ?tmp = ?tmp" by (rule take_all) simp
  then have a: "CHR ''.'' \<in> set (take (length ?tmp) ?tmp) \<or> CHR '' '' \<in> set (take (length ?tmp) ?tmp)"
    using assms by (simp only:)
  have "length (cut_at ?tmp (length ?tmp)) \<le> length ?tmp" by (rule cut_at_length[OF a])
  also have "\<dots> \<le> 850" by simp
  finally show ?thesis unfolding truncated_fallback_def Let_def .
qed

lemma rewritten_reply_short:
  "length (strip (case c of None \<Rightarrow> [] | Some s \<Rightarrow> s)) \<le> 850
     \<Longrightarrow> rewritten_reply c = strip (case c of None \<Rightarrow> [] | Some s \<Rightarrow> s)"
  by (simp add: rewritten_reply_def Let_def)

lemma rewritten_reply_long:
  "850 < length (strip (case c of None \<Rightarrow> [] | Some s \<Rightarrow> s))
     \<Longrightarrow> rewritten_reply c = cut_at (strip (case c of None \<Rightarrow> [] | Some s \<Rightarrow> s)) 850"
  by (simp add: rewritten_reply_def Let_def)

text \<open>
  Claim C6, as amended. For a record whose Description is a string of more than 1000
  characters: a cached value that is true in Python's sense is stored unchanged. Without
  one, a string is stored and cached; when the collaborator raises, or its stripped reply
  is longer than 850 characters, that string ends with \<^verbatim>\<open>.\<close>, \<^verbatim>\<open>!\<close> or \<^verbatim>\<open>?\<close>
  and is at most 850 characters long if the first 850 characters of the text that is
  cut hold a full stop or a space; a stripped reply of at most 850 characters is stored
  unchanged.
\<close>

theorem enforce_description_stored:
  assumes d: "dict_get act ''Description'' = Some (PStr desc)" and long: "1000 < length desc"
      and run: "enforce_description hash gen cache act = (act', cache')"
      and key: "key = hash [''desc850'', desc]"
  shows "(\<forall>v. cache_get cache ''rewrite850'' key = Some v \<and> truthy v \<longrightarrow>
            dict_get act' ''Description'' = Some v \<and> cache' = cache)
         \<and> ((\<forall>v. cache_get cache ''rewrite850'' key = Some v \<longrightarrow> \<not> truthy v) \<longrightarrow>
              (\<exists>new. dict_get act' ''Description'' = Some (PStr new)
                 \<and> cache_get cache' ''rewrite850'' key = Some (PStr new)
                 \<and> (gen (desc_prompt desc) = GenRaises \<longrightarrow>
                       ends_with_punct new
                       \<and> (CHR ''.'' \<in> set (take 850 desc) \<or> CHR '' '' \<in> set (take 850 desc)
                            \<longrightarrow> length new \<le> 850))
                 \<and> (\<forall>c r. gen (desc_prompt desc) = GenContent c
                          \<and> r = strip (case c of None \<Rightarrow> [] | Some s \<Rightarrow> s) \<longrightarrow>
                       (length r \<le> 850 \<longrightarrow> new = r)
                       \<and> (850 < length r \<longrightarrow>
                            ends_with_punct new
                            \<and> (CHR ''.'' \<in> set (take 850 r) \<or> CHR '' '' \<in> set (take 850 r)
                                 \<longrightarrow> length new \<le> 850)))))"
proof -
  let ?new = "rewrite_description gen desc"
  have hit: "dict_get act' ''Description'' = Some v \<and> cache' = cache"
    if "cache_get cache ''rewrite850'' key = Some v \<and> truthy v" for v
    using that d long run key
    by (auto simp: enforce_description_def Let_def dict_get_set)
  have miss: "act' = dict_set act ''Description'' (PStr ?new)
              \<and> cache' = cache_set cache ''rewrite850'' key (PStr ?new)"
    if "\<forall>v. cache_get cache ''rewrite850'' key = Some v \<longrightarrow> \<not> truthy v"
    using that d long run key
    by (cases "cache_get cache ''rewrite850'' key")
       (auto simp: enforce_description_def Let_def)
  have fb: "ends_with_punct ?new
            \<and> (CHR ''.'' \<in> set (take 850 desc) \<or> CHR '' '' \<in> set (take 850 desc)
                 \<longrightarrow> length ?new \<le> 850)"
    if "gen (desc_prompt desc) = GenRaises"
    using that truncated_fallback_punct[of desc] truncated_fallback_length[of desc]
    by (simp add: rewrite_description_def)
  have rp: "(length r \<le> 850 \<longrightarrow> ?new = r)
            \<and> (850 < length r \<longrightarrow>
                 ends_with_punct ?new
                 \<and> (CHR ''.'' \<in> set (take 850 r) \<or> CHR '' '' \<in> set (take 850 r)
                      \<longrightarrow> length ?new \<le> 850))"
    if "gen (desc_prompt desc) = GenContent c \<and> r = strip (case c of None \<Rightarrow> [] | Some s \<Rightarrow> s)"
    for c r
  proof -
    have n: "?new = rewritten_reply c" using that by (simp add: rewrite_description_def)
    have r: "r = strip (case c of None \<Rightarrow> [] | Some s \<Rightarrow> s)" using that by simp
    show ?thesis
      unfolding n r
      using rewritten_reply_short[of c] rewritten_reply_long[of c]
            cut_at_punct[of "strip (case c of None \<Rightarrow> [] | Some s \<Rightarrow> s)" 850]
            cut_at_length[of 850 "strip (case c of None \<Rightarrow> [] | Some s \<Rightarrow> s)"]
      by auto
  qed
  have stored: "dict_get act' ''Description'' = Some (PStr ?new)
                \<and> cache_get cache' ''rewrite850'' key = Some (PStr ?new)"
    if "\<forall>v. cache_get cache ''rewrite850'' key = Some v \<longrightarrow> \<not> truthy v"
    using miss[OF that] by (simp add: dict_get_set cache_get_def cache_set_def)
  show ?thesis using hit stored fb rp by blast
qed

theorem enforce_description_stored_witness:
  "\<exists>new. dict_get (fst (enforce_description concat (\<lambda>p. GenRaises) (\<lambda>k. None)
                  [(''Title'', PStr ''Talk''),
                   (''Description'', PStr (''Hello world. '' @ replicate 1000 CHR ''a''))]))
            ''Description'' = Some (PStr new)
         \<and> ends_with_punct new \<and> length new \<le> 850"
proof -
  let ?desc = "''Hello world. '' @ replicate 1000 CHR ''a''"
  let ?act = "[(''Title'', PStr ''Talk''), (''Description'', PStr ?desc)]"
  let ?cache = "(\<lambda>k. None) :: cache_store"
  let ?gen = "(\<lambda>p. GenRaises) :: string \<Rightarrow> gen_result"
  obtain act' cache' where run: "enforce_description concat ?gen ?cache ?act = (act', cache')"
    by (cases "enforce_description concat ?gen ?cache ?act")
  have d: "dict_get ?act ''Description'' = Some (PStr ?desc)"
    by (simp add: dict_get_def)
  have long: "1000 < length ?desc" by simp
  have miss: "\<forall>v. cache_get ?cache ''rewrite850'' (concat [''desc850'', ?desc]) = Some v \<longrightarrow> \<not> truthy v"
    by (simp add: cache_get_def)
  have cp: "CHR ''.'' \<in> set (take 850 ?desc) \<or> CHR '' '' \<in> set (take 850 ?desc)"
    by simp
  have g: "?gen (desc_prompt ?desc) = GenRaises" by simp
  from enforce_description_stored[OF d long run refl, THEN conjunct2, THEN mp, OF miss]
  obtain new where n: "dict_get act' ''Description'' = Some (PStr new)"
    "?gen (desc_prompt ?desc) = GenRaises \<longrightarrow>
        ends_with_punct new
        \<and> (CHR ''.'' \<in> set (take 850 ?desc) \<or> CHR '' '' \<in> set (take 850 ?desc)
             \<longrightarrow> length new \<le> 850)"
    by (elim exE conjE)
  have "ends_with_punct new \<and> length new \<le> 850"
    using n(2) g cp by blast
  then show ?thesis using n(1) run by auto
qed

text \<open>
  Claim C6 as stated fails: a short reply without final punctuation is stored as it is,
  and so is a cached text of 900 characters.
\<close>

theorem enforce_description_unchecked_counterexample:
  "dict_get (fst (enforce_description concat (\<lambda>p. GenContent (Some ''Short summary'')) (\<lambda>k. None)
                    [(''Description'', PStr (replicate 1001 CHR ''a''))]))
      ''Description'' = Some (PStr ''Short summary'')
   \<and> \<not> ends_with_punct ''Short summary''
   \<and> dict_get (fst (enforce_description concat (\<lambda>p. GenRaises)
                    (\<lambda>k. if k = (''rewrite850'', concat [''desc850'', replicate 1001 CHR ''a''])
                         then Some (PStr (replicate 900 CHR ''b'')) else None)
                    [(''Description'', PStr (replicate 1001 CHR ''a''))]))
      ''Description'' = Some (PStr (replicate 900 CHR ''b''))
   \<and> \<not> length (replicate 900 CHR ''b'') \<le> 850
   \<and> \<not> ends_with_punct (replicate 900 CHR ''b'')"
proof -
  have r: "rewritten_reply (Some ''Short summary'') = ''Short summary''"
    by code_simp
  have a: "dict_get (fst (enforce_description concat (\<lambda>p. GenContent (Some ''Short summary'')) (\<lambda>k. None)
                    [(''Description'', PStr (replicate 1001 CHR ''a''))]))
      ''Description'' = Some (PStr ''Short summary'')"
    by (simp add: enforce_description_def dict_get_def dict_set_def cache_get_def
                  rewrite_description_def r Let_def)
  have b: "\<not> ends_with_punct ''Short summary''"
    by (simp add: ends_with_punct_def)
  have c: "dict_get (fst (enforce_description concat (\<lambda>p. GenRaises)
                    (\<lambda>k. if k = (''rewrite850'', concat [''desc850'', replicate 1001 CHR ''a''])
                         then Some (PStr (replicate 900 CHR ''b'')) else None)
                    [(''Description'', PStr (replicate 1001 CHR ''a''))]))
      ''Description'' = Some (PStr (replicate 900 CHR ''b''))"
    by (simp add: enforce_description_def dict_get_def dict_set_def cache_get_def Let_def)
  have e: "\<not> ends_with_punct (replicate 900 CHR ''b'')"
    by (simp add: ends_with_punct_def)
  show ?thesis using a b c e by simp
qed

lemma rfind_from_absent: "(\<forall>j<i. s ! j \<noteq> c) \<Longrightarrow> rfind_from c s i = -1"
  by (induction i) auto

lemma rfind_replicate: "a \<noteq> c \<Longrightarrow> rfind c (replicate n a) e = -1"
  unfolding rfind_def by (rule rfind_from_absent) simp

lemma strip_replicate: "\<not> is_space a \<Longrightarrow> strip (replicate n a) = replicate n a"
proof -
  assume a: "\<not> is_space a"
  have d: "dropWhile is_space (replicate n a) = replicate n a"
    using a by (cases n) simp_all
  show ?thesis using a by (simp add: strip_def d)
qed

text \<open>
  When the first 850 characters hold neither a full stop nor a space, the cut keeps all
  850 of them and the appended full stop makes 851: the fallback for a text of 1001
  letters.
\<close>

lemma truncated_fallback_overlong:
  "length (truncated_fallback (replicate 1001 CHR ''a'')) = 851"
proof -
  have s: "\<not> is_space CHR ''a''" by (simp add: is_space_def)
  have t: "take 850 (replicate 1001 CHR ''a'') = replicate 850 CHR ''a''" by simp
  have p: "\<not> ends_with_punct (replicate 850 CHR ''a'')" by (simp add: ends_with_punct_def)
  show ?thesis
    unfolding truncated_fallback_def Let_def t cut_at_def
    by (simp add: rfind_replicate strip_replicate[OF s] p)
qed

section \<open>Properties of the submission\<close>

lemma technology_fields_frame:
  assumes "technology_fields topts d = Inr d'" "k \<noteq> ''Main Technology''" "k \<noteq> ''Additional Technologies''"
  shows "dict_get d' k = dict_get d k"
  using assms
  by (auto simp: technology_fields_def Let_def dict_get_set split: sum.splits prod.splits)

lemma internal_notes_field_frame:
  assumes "internal_notes_field d = Inr d'" "k \<noteq> ''Internal Notes''"
  shows "dict_get d' k = dict_get d k"
  using assms
  by (auto simp: internal_notes_field_def dict_get_set split: sum.splits if_splits)

lemma prepare_activity_frame:
  assumes "prepare_activity ag d = (ag', d', err)" "k \<notin> written_keys"
  shows "dict_get d' k = dict_get d k"
proof -
  let ?aud = "PList (map PStr (case target_audience_options ag of None \<Rightarrow> default_audiences
                 | Some l \<Rightarrow> if l = [] then default_audiences else l))"
  let ?d1 = "dict_set d ''Audience'' ?aud"
  let ?topts = "case tech_options_cached ag of None \<Rightarrow> get_fallback_tech_options | Some t \<Rightarrow> t"
  have k: "k \<noteq> ''Audience''" "k \<noteq> ''Main Technology''" "k \<noteq> ''Additional Technologies''"
          "k \<noteq> ''Internal Notes''"
    using assms(2) by (auto simp: written_keys_def)
  have d1: "dict_get ?d1 k = dict_get d k" using k(1) by (simp add: dict_get_set)
  show ?thesis
  proof (cases "technology_fields ?topts ?d1")
    case (Inl e)
    then have "d' = ?d1" using assms(1) by (simp add: prepare_activity_def Let_def)
    then show ?thesis using d1 by simp
  next
    case (Inr d2)
    have d2: "dict_get d2 k = dict_get d k"
      using technology_fields_frame[OF Inr k(2,3)] d1 by simp
    show ?thesis
    proof (cases "internal_notes_field d2")
      case (Inl e)
      then have "d' = d2" using assms(1) Inr by (simp add: prepare_activity_def Let_def)
      then show ?thesis using d2 by simp
    next
      case (Inr d3)
      have "d' = d3"
        using assms(1) Inr \<open>technology_fields ?topts ?d1 = Inr d2\<close>
        by (simp add: prepare_activity_def Let_def split: if_splits)
      then show ?thesis using internal_notes_field_frame[OF Inr k(4)] d2 by simp
    qed
  qed
qed

lemma prepare_activity_Audience:
  assumes "prepare_activity ag d = (ag', d', err)"
  shows "dict_get d' ''Audience'' =
           Some (PList (map PStr (case target_audience_options ag of None \<Rightarrow> default_audiences
                                  | Some l \<Rightarrow> if l = [] then default_audiences else l)))"
proof -
  let ?aud = "PList (map PStr (case target_audience_options ag of None \<Rightarrow> default_audiences
                 | Some l \<Rightarrow> if l = [] then default_audiences else l))"
  let ?d1 = "dict_set d ''Audience'' ?aud"
  let ?topts = "case tech_options_cached ag of None \<Rightarrow> get_fallback_tech_options | Some t \<Rightarrow> t"
  have d1: "dict_get ?d1 ''Audience'' = Some ?aud" by (simp add: dict_get_set)
  show ?thesis
  proof (cases "technology_fields ?topts ?d1")
    case (Inl e)
    then have "d' = ?d1" using assms(1) by (simp add: prepare_activity_def Let_def)
    then show ?thesis using d1 by simp
  next
    case (Inr d2)
    have d2: "dict_get d2 ''Audience'' = Some ?aud"
      using technology_fields_frame[OF Inr, of "''Audience''"] d1 by simp
    show ?thesis
    proof (cases "internal_notes_field d2")
      case (Inl e)
      then have "d' = d2" using assms(1) Inr by (simp add: prepare_activity_def Let_def)
      then show ?thesis using d2 by simp
    next
      case (Inr d3)
      have "d' = d3"
        using assms(1) Inr \<open>technology_fields ?topts ?d1 = Inr d2\<close>
        by (simp add: prepare_activity_def Let_def split: if_splits)
      then show ?thesis using internal_notes_field_frame[OF Inr, of "''Audience''"] d2 by simp
    qed
  qed
qed

lemma next_backoff_frame:
  "heap (snd (next_backoff w st)) = heap st"
  "n_arun (snd (next_backoff w st)) = n_arun st"
  by (simp_all add: next_backoff_def split_beta Let_def)

lemma attempts_heap: "heap (snd (attempts w d n attempt st)) = heap st"
proof (induction n arbitrary: attempt st)
  case 0
  then show ?case by simp
next
  case (Suc n)
  show ?case
    by (auto simp: Let_def split_beta Suc.IH next_backoff_frame split: exec_result.splits)
qed

lemma submit_activity_heap:
  "heap (snd (submit_activity w r st))
     = (heap st)\<lparr> cells := (cells (heap st))
                   (next_free (heap st) := fst (snd (prepare_activity (the_agent st) (cells (heap st) r)))),
                 next_free := Suc (next_free (heap st)) \<rparr>"
  by (auto simp: submit_activity_def copy_dict_def Let_def split_beta attempts_heap
           split: option.splits)

text \<open>
  Claim C10. A call of \<^verbatim>\<open>submit_activity\<close> on the caller's record at address \<open>r\<close>,
  whatever its result, leaves that record and every other object that existed before
  the call unchanged. It creates one new object, the working copy, which agrees with the
  caller's record on every key except \<^verbatim>\<open>Audience\<close>, \<^verbatim>\<open>Main Technology\<close>,
  \<^verbatim>\<open>Additional Technologies\<close> and \<^verbatim>\<open>Internal Notes\<close>, and whose \<^verbatim>\<open>Audience\<close> is the
  audience list.
\<close>

theorem submit_activity_frame:
  assumes valid: "r < next_free (heap st)"
      and run: "submit_activity w r st = (res, st')"
  shows "cells (heap st') r = cells (heap st) r
         \<and> (\<forall>a. a < next_free (heap st) \<longrightarrow> cells (heap st') a = cells (heap st) a)
         \<and> next_free (heap st') = Suc (next_free (heap st))
         \<and> (\<forall>k. k \<notin> written_keys \<longrightarrow>
               dict_get (cells (heap st') (next_free (heap st))) k = dict_get (cells (heap st) r) k)
         \<and> dict_get (cells (heap st') (next_free (heap st))) ''Audience'' =
               Some (PList (map PStr (case target_audience_options (the_agent st) of
                                        None \<Rightarrow> default_audiences
                                      | Some l \<Rightarrow> if l = [] then default_audiences else l)))"
proof -
  let ?p = "prepare_activity (the_agent st) (cells (heap st) r)"
  have h: "heap st' = (heap st)\<lparr> cells := (cells (heap st))(next_free (heap st) := fst (snd ?p)),
                                  next_free := Suc (next_free (heap st)) \<rparr>"
    using submit_activity_heap[of w r st] run by simp
  have old: "cells (heap st') a = cells (heap st) a" if "a < next_free (heap st)" for a
    using that h by simp
  have new: "cells (heap st') (next_free (heap st)) = fst (snd ?p)"
    using h by simp
  have frame: "dict_get (fst (snd ?p)) k = dict_get (cells (heap st) r) k" if "k \<notin> written_keys" for k
    using prepare_activity_frame[of "the_agent st" "cells (heap st) r" "fst ?p" "fst (snd ?p)" "snd (snd ?p)" k]
          that by simp
  have aud: "dict_get (fst (snd ?p)) ''Audience'' =
               Some (PList (map PStr (case target_audience_options (the_agent st) of
                                        None \<Rightarrow> default_audiences
                                      | Some l \<Rightarrow> if l = [] then default_audiences else l)))"
    by (rule prepare_activity_Audience[of "the_agent st" "cells (heap st) r" "fst ?p" _ "snd (snd ?p)"])
       simp
  show ?thesis using old[OF valid] old new frame aud h by simp
qed

theorem submit_activity_frame_witness:
  "cells (heap (snd (submit_activity
      \<lparr> arun = (\<lambda>k d. Returns (Some ''saved'')), time_now = (\<lambda>k. 0), random_draw = (\<lambda>k. 0),
        answers_yes = True \<rparr> 0
      \<lparr> the_agent = \<lparr> fast_mode = True, rate_limit = init_backoff True,
                      tech_options_cached = None, target_audience_options = None \<rparr>,
        heap = \<lparr> cells = (\<lambda>a. [(''Title'', PStr ''Talk''), (''Audience'', PStr ''Student'')]),
                 next_free = 1 \<rparr>,
        n_arun = 0, n_backoff = 0, events = [] \<rparr>))) 0
   = [(''Title'', PStr ''Talk''), (''Audience'', PStr ''Student'')]"
proof -
  let ?w = "\<lparr> arun = (\<lambda>k d. Returns (Some ''saved'')), time_now = (\<lambda>k. 0), random_draw = (\<lambda>k. 0),
        answers_yes = True \<rparr>"
  let ?st = "\<lparr> the_agent = \<lparr> fast_mode = True, rate_limit = init_backoff True,
                      tech_options_cached = None, target_audience_options = None \<rparr>,
        heap = \<lparr> cells = (\<lambda>a. [(''Title'', PStr ''Talk''), (''Audience'', PStr ''Student'')]),
                 next_free = 1 \<rparr>,
        n_arun = 0, n_backoff = 0, events = [] \<rparr>"
  have v: "(0::nat) < next_free (heap ?st)" by simp
  obtain res st' where run: "submit_activity ?w 0 ?st = (res, st')"
    by (cases "submit_activity ?w 0 ?st")
  from submit_activity_frame[OF v run]
  have "cells (heap st') 0 = cells (heap ?st) 0" by blast
  then show ?thesis using run by simp
qed

lemma next_backoff_n_arun: "n_arun (snd (next_backoff w st)) = n_arun st"
  by (simp add: next_backoff_def split_beta Let_def)

lemma attempts_returns:
  "arun w (n_arun st) d = Returns c \<Longrightarrow>
     attempts w d (Suc k) a st
       = (Inr c, st\<lparr> n_arun := Suc (n_arun st), events := events st @ [ExecutorCall] \<rparr>)"
  by (simp add: Let_def)

lemma attempts_fatal:
  "arun w (n_arun st) d = Raises m \<Longrightarrow> \<not> is_rate_limit m \<Longrightarrow> \<not> is_snapshot_error m \<Longrightarrow>
     attempts w d (Suc k) a st
       = (Inl (ExecutorError m), st\<lparr> n_arun := Suc (n_arun st), events := events st @ [ExecutorCall] \<rparr>)"
  by (simp add: Let_def)

lemma attempts_last_snapshot:
  "arun w (n_arun st) d = Raises m \<Longrightarrow> \<not> is_rate_limit m \<Longrightarrow> is_snapshot_error m \<Longrightarrow>
   \<not> a < max_attempts - 1 \<Longrightarrow>
     attempts w d (Suc k) a st
       = (Inl (Exception ''Failed after 3 attempts due to snapshot errors''),
          st\<lparr> n_arun := Suc (n_arun st), events := events st @ [ExecutorCall] \<rparr>)"
  by (simp add: Let_def)

lemma attempts_retry:
  assumes "arun w (n_arun st) d = Raises m"
      and "is_rate_limit m \<or> (is_snapshot_error m \<and> a < max_attempts - 1)"
  shows "\<exists>st'. attempts w d (Suc k) a st = attempts w d k (Suc a) st'
               \<and> n_arun st' = Suc (n_arun st)"
proof (cases "is_rate_limit m")
  case True
  let ?st1 = "st\<lparr> n_arun := Suc (n_arun st), events := events st @ [ExecutorCall] \<rparr>"
  let ?st2 = "snd (next_backoff w ?st1)"
  let ?st3 = "?st2\<lparr> events := events ?st2 @ [Sleep (fst (next_backoff w ?st1)), Snapshot] \<rparr>"
  have "attempts w d (Suc k) a st = attempts w d k (Suc a) ?st3"
    using assms(1) True by (simp add: Let_def split_beta)
  moreover have "n_arun ?st3 = Suc (n_arun st)"
    by (simp add: next_backoff_n_arun)
  ultimately show ?thesis by blast
next
  case False
  let ?st1 = "st\<lparr> n_arun := Suc (n_arun st), events := events st @ [ExecutorCall] \<rparr>"
  let ?st3 = "?st1\<lparr> events := events ?st1 @ [Snapshot] \<rparr>"
  have "attempts w d (Suc k) a st = attempts w d k (Suc a) ?st3"
    using assms False by (simp add: Let_def)
  moreover have "n_arun ?st3 = Suc (n_arun st)" by simp
  ultimately show ?thesis by blast
qed

lemma attempts_last_rate_limit:
  assumes "arun w (n_arun st) d = Raises m" "is_rate_limit m"
  shows "\<exists>st'. attempts w d (Suc 0) a st = (Inr None, st') \<and> n_arun st' = Suc (n_arun st)"
  using attempts_retry[of w st d m a 0] assms by (auto simp del: attempts.simps simp add: attempts.simps(1))

lemma submit_activity_prepared:
  assumes "prepare_activity (the_agent st) (cells (heap st) r) = (ag, d, None)"
  shows "submit_activity w r st
           = attempts w d max_attempts 0
               (st\<lparr> the_agent := ag,
                    heap := (heap st)\<lparr> next_free := Suc (next_free (heap st)),
                                        cells := (cells (heap st))(next_free (heap st) := d) \<rparr> \<rparr>)"
  using assms by (simp add: submit_activity_def copy_dict_def Let_def)

lemma max_attempts_Suc: "max_attempts = Suc (Suc (Suc 0))"
  by (simp add: max_attempts_def)

lemma three_attempts:
  assumes e1: "arun w (n_arun st) d = Raises m1" "is_rate_limit m1 \<or> is_snapshot_error m1"
      and e2: "arun w (Suc (n_arun st)) d = Raises m2" "is_rate_limit m2 \<or> is_snapshot_error m2"
  shows "\<exists>st2. attempts w d max_attempts 0 st = attempts w d (Suc 0) (Suc (Suc 0)) st2
               \<and> n_arun st2 = Suc (Suc (n_arun st))"
proof -
  have a1: "is_rate_limit m1 \<or> (is_snapshot_error m1 \<and> 0 < max_attempts - 1)"
    using e1(2) by (auto simp: max_attempts_def)
  obtain st1 where s1: "attempts w d (Suc (Suc (Suc 0))) 0 st = attempts w d (Suc (Suc 0)) (Suc 0) st1"
      "n_arun st1 = Suc (n_arun st)"
    using attempts_retry[OF e1(1) a1, of "Suc (Suc 0)"] by blast
  have a2: "is_rate_limit m2 \<or> (is_snapshot_error m2 \<and> Suc 0 < max_attempts - 1)"
    using e2(2) by (auto simp: max_attempts_def)
  have r2: "arun w (n_arun st1) d = Raises m2" using e2(1) s1(2) by simp
  obtain st2 where s2: "attempts w d (Suc (Suc 0)) (Suc 0) st1 = attempts w d (Suc 0) (Suc (Suc 0)) st2"
      "n_arun st2 = Suc (n_arun st1)"
    using attempts_retry[OF r2 a2, of "Suc 0"] by blast
  have "attempts w d max_attempts 0 st = attempts w d (Suc 0) (Suc (Suc 0)) st2"
    unfolding max_attempts_Suc using s1(1) s2(1) by (simp only:)
  then show ?thesis using s1(2) s2(2) by (auto simp del: attempts.simps)
qed

lemma snapshot_exhausted:
  assumes prep: "prepare_activity (the_agent st) (cells (heap st) r) = (ag, d, None)"
      and e1: "arun w (n_arun st) d = Raises m1" "is_rate_limit m1 \<or> is_snapshot_error m1"
      and e2: "arun w (n_arun st + 1) d = Raises m2" "is_rate_limit m2 \<or> is_snapshot_error m2"
      and e3: "arun w (n_arun st + 2) d = Raises m3" "\<not> is_rate_limit m3" "is_snapshot_error m3"
      and run: "submit_activity w r st = (res, st')"
  shows "res = Inl (Exception ''Failed after 3 attempts due to snapshot errors'')
         \<and> n_arun st' = n_arun st + 3"
proof -
  let ?st0 = "st\<lparr> the_agent := ag,
                  heap := (heap st)\<lparr> next_free := Suc (next_free (heap st)),
                                      cells := (cells (heap st))(next_free (heap st) := d) \<rparr> \<rparr>"
  have n0: "n_arun ?st0 = n_arun st" by simp
  have s: "submit_activity w r st = attempts w d max_attempts 0 ?st0"
    by (rule submit_activity_prepared[OF prep])
  obtain st2 where st2: "attempts w d max_attempts 0 ?st0 = attempts w d (Suc 0) (Suc (Suc 0)) st2"
      "n_arun st2 = Suc (Suc (n_arun ?st0))"
    using three_attempts[of w ?st0 d m1 m2] e1 e2 n0 by (auto simp del: attempts.simps)
  have r3: "arun w (n_arun st2) d = Raises m3" using e3(1) st2(2) by simp
  have last: "\<not> Suc (Suc 0) < max_attempts - 1" by (simp add: max_attempts_def)
  have "attempts w d (Suc 0) (Suc (Suc 0)) st2
          = (Inl (Exception ''Failed after 3 attempts due to snapshot errors''),
             st2\<lparr> n_arun := Suc (n_arun st2), events := events st2 @ [ExecutorCall] \<rparr>)"
    by (rule attempts_last_snapshot[OF r3 e3(2,3) last])
  then show ?thesis using run s st2 by (auto simp del: attempts.simps)
qed

text \<open>
  Claim C1, as amended. When the preparation raises nothing and all three attempts of
  \<^verbatim>\<open>submit_activity\<close> fail with rate-limit or snapshot errors, the last of them a
  snapshot error (not a rate-limit one), the call raises an \<^verbatim>\<open>Exception\<close> with the
  fixed text \<^verbatim>\<open>Failed after 3 attempts due to snapshot errors\<close>, after exactly three
  invocations of the executor, and so returns no value. The text does not depend on the
  record.
\<close>

theorem submit_activity_snapshot_exhausted:
  assumes prep: "prepare_activity (the_agent st) (cells (heap st) r) = (ag, d, None)"
      and e1: "arun w (n_arun st) d = Raises m1" "is_rate_limit m1 \<or> is_snapshot_error m1"
      and e2: "arun w (n_arun st + 1) d = Raises m2" "is_rate_limit m2 \<or> is_snapshot_error m2"
      and e3: "arun w (n_arun st + 2) d = Raises m3" "\<not> is_rate_limit m3" "is_snapshot_error m3"
      and run: "submit_activity w r st = (res, st')"
  shows "res = Inl (Exception ''Failed after 3 attempts due to snapshot errors'')
         \<and> n_arun st' = n_arun st + 3"
  by (rule snapshot_exhausted[OF assms])

lemma submit_activity_rate_limit_exhausted:
  assumes prep: "prepare_activity (the_agent st) (cells (heap st) r) = (ag, d, None)"
      and e1: "arun w (n_arun st) d = Raises m1" "is_rate_limit m1 \<or> is_snapshot_error m1"
      and e2: "arun w (n_arun st + 1) d = Raises m2" "is_rate_limit m2 \<or> is_snapshot_error m2"
      and e3: "arun w (n_arun st + 2) d = Raises m3" "is_rate_limit m3"
  shows "fst (submit_activity w r st) = Inr None
         \<and> n_arun (snd (submit_activity w r st)) = n_arun st + 3"
proof -
  let ?st0 = "st\<lparr> the_agent := ag,
                  heap := (heap st)\<lparr> next_free := Suc (next_free (heap st)),
                                      cells := (cells (heap st))(next_free (heap st) := d) \<rparr> \<rparr>"
  have n0: "n_arun ?st0 = n_arun st" by simp
  have s: "submit_activity w r st = attempts w d max_attempts 0 ?st0"
    by (rule submit_activity_prepared[OF prep])
  obtain st2 where st2: "attempts w d max_attempts 0 ?st0 = attempts w d (Suc 0) (Suc (Suc 0)) st2"
      "n_arun st2 = Suc (Suc (n_arun ?st0))"
    using three_attempts[of w ?st0 d m1 m2] e1 e2 n0 by (auto simp del: attempts.simps)
  have r3: "arun w (n_arun st2) d = Raises m3" using e3(1) st2(2) by simp
  obtain st3 where "attempts w d (Suc 0) (Suc (Suc 0)) st2 = (Inr None, st3)" "n_arun st3 = Suc (n_arun st2)"
    using attempts_last_rate_limit[OF r3 e3(2), of "Suc (Suc 0)"] by blast
  then show ?thesis using s st2 by (auto simp del: attempts.simps)
qed

theorem submit_activity_snapshot_exhausted_witness:
  "fst (submit_activity
      \<lparr> arun = (\<lambda>k d. if k = 0 then Raises ''429 Too Many Requests''
                        else Raises ''Ref not found in the current page snapshot''),
        time_now = (\<lambda>k. 0), random_draw = (\<lambda>k. 0), answers_yes = True \<rparr> 0
      \<lparr> the_agent = \<lparr> fast_mode = True, rate_limit = init_backoff True,
                      tech_options_cached = Some \<lparr>primary = [''Azure''], additional = [''Python'']\<rparr>,
                      target_audience_options = None \<rparr>,
        heap = \<lparr> cells = (\<lambda>a. [(''Category'', PStr ''Blog''), (''Title'', PStr ''Talk''),
                               (''Description'', PStr ''About Azure.''),
                               (''URL'', PStr ''https://example.org/t''),
                               (''Date'', PStr ''2024-01-01''), (''Quantity'', PInt 1)]),
                 next_free = 1 \<rparr>,
        n_arun = 0, n_backoff = 0, events = [] \<rparr>)
   = Inl (Exception ''Failed after 3 attempts due to snapshot errors'')"
proof -
  let ?w = "\<lparr> arun = (\<lambda>k d. if k = 0 then Raises ''429 Too Many Requests''
                        else Raises ''Ref not found in the current page snapshot''),
        time_now = (\<lambda>k. 0), random_draw = (\<lambda>k. 0), answers_yes = True \<rparr>"
  let ?ag = "\<lparr> fast_mode = True, rate_limit = init_backoff True,
                tech_options_cached = Some \<lparr>primary = [''Azure''], additional = [''Python'']\<rparr>,
                target_audience_options = None \<rparr>"
  let ?rec = "[(''Category'', PStr ''Blog''), (''Title'', PStr ''Talk''),
               (''Description'', PStr ''About Azure.''),
               (''URL'', PStr ''https://example.org/t''),
               (''Date'', PStr ''2024-01-01''), (''Quantity'', PInt 1)]"
  let ?st = "\<lparr> the_agent = ?ag, heap = \<lparr> cells = (\<lambda>a. ?rec), next_free = 1 \<rparr>,
               n_arun = 0, n_backoff = 0, events = [] \<rparr>"
  have p: "snd (snd (prepare_activity ?ag ?rec)) = None" by code_simp
  obtain ag d where prep: "prepare_activity (the_agent ?st) (cells (heap ?st) 0) = (ag, d, None)"
    using p by (cases "prepare_activity ?ag ?rec") auto
  have c: "is_rate_limit ''429 Too Many Requests''"
          "is_snapshot_error ''Ref not found in the current page snapshot''"
          "\<not> is_rate_limit ''Ref not found in the current page snapshot''"
    by code_simp+
  have e1: "arun ?w (n_arun ?st) d = Raises ''429 Too Many Requests''" by simp
  have e2: "arun ?w (n_arun ?st + 1) d = Raises ''Ref not found in the current page snapshot''"
    by simp
  have e3: "arun ?w (n_arun ?st + 2) d = Raises ''Ref not found in the current page snapshot''"
    by simp
  obtain res st' where run: "submit_activity ?w 0 ?st = (res, st')"
    by (cases "submit_activity ?w 0 ?st")
  have "res = Inl (Exception ''Failed after 3 attempts due to snapshot errors'')"
    using submit_activity_snapshot_exhausted[OF prep e1 _ e2 _ e3 c(3) c(2) run] c by blast
  then show ?thesis using run by simp
qed

text \<open>
  Claim C1 as stated fails: after three snapshot errors for the record titled
  \<^verbatim>\<open>Talk\<close> the text of the exception does not hold the title. And after three
  rate-limit errors the call raises nothing: the loop ends and the function returns
  \<^verbatim>\<open>None\<close>.
\<close>

theorem submit_activity_exhausted_counterexample:
  "fst (submit_activity
      \<lparr> arun = (\<lambda>k d. Raises ''Ref not found in the current page snapshot''),
        time_now = (\<lambda>k. 0), random_draw = (\<lambda>k. 0), answers_yes = True \<rparr> 0
      \<lparr> the_agent = \<lparr> fast_mode = True, rate_limit = init_backoff True,
                      tech_options_cached = Some \<lparr>primary = [''Azure''], additional = [''Python'']\<rparr>,
                      target_audience_options = None \<rparr>,
        heap = \<lparr> cells = (\<lambda>a. [(''Category'', PStr ''Blog''), (''Title'', PStr ''Talk''),
                               (''Description'', PStr ''About Azure.''),
                               (''URL'', PStr ''https://example.org/t''),
                               (''Date'', PStr ''2024-01-01''), (''Quantity'', PInt 1)]),
                 next_free = 1 \<rparr>,
        n_arun = 0, n_backoff = 0, events = [] \<rparr>)
     = Inl (Exception ''Failed after 3 attempts due to snapshot errors'')
   \<and> \<not> contains ''Talk'' ''Failed after 3 attempts due to snapshot errors''
   \<and> fst (submit_activity
      \<lparr> arun = (\<lambda>k d. Raises ''429 Too Many Requests''),
        time_now = (\<lambda>k. 0), random_draw = (\<lambda>k. 0), answers_yes = True \<rparr> 0
      \<lparr> the_agent = \<lparr> fast_mode = True, rate_limit = init_backoff True,
                      tech_options_cached = Some \<lparr>primary = [''Azure''], additional = [''Python'']\<rparr>,
                      target_audience_options = None \<rparr>,
        heap = \<lparr> cells = (\<lambda>a. [(''Category'', PStr ''Blog''), (''Title'', PStr ''Talk''),
                               (''Description'', PStr ''About Azure.''),
                               (''URL'', PStr ''https://example.org/t''),
                               (''Date'', PStr ''2024-01-01''), (''Quantity'', PInt 1)]),
                 next_free = 1 \<rparr>,
        n_arun = 0, n_backoff = 0, events = [] \<rparr>)
     = Inr None"
proof -
  let ?w1 = "\<lparr> arun = (\<lambda>k d. Raises ''Ref not found in the current page snapshot''),
        time_now = (\<lambda>k. 0), random_draw = (\<lambda>k. 0), answers_yes = True \<rparr>"
  let ?w2 = "\<lparr> arun = (\<lambda>k d. Raises ''429 Too Many Requests''),
        time_now = (\<lambda>k. 0), random_draw = (\<lambda>k. 0), answers_yes = True \<rparr>"
  let ?ag = "\<lparr> fast_mode = True, rate_limit = init_backoff True,
                tech_options_cached = Some \<lparr>primary = [''Azure''], additional = [''Python'']\<rparr>,
                target_audience_options = None \<rparr>"
  let ?rec = "[(''Category'', PStr ''Blog''), (''Title'', PStr ''Talk''),
               (''Description'', PStr ''About Azure.''),
               (''URL'', PStr ''https://example.org/t''),
               (''Date'', PStr ''2024-01-01''), (''Quantity'', PInt 1)]"
  let ?st = "\<lparr> the_agent = ?ag, heap = \<lparr> cells = (\<lambda>a. ?rec), next_free = 1 \<rparr>,
               n_arun = 0, n_backoff = 0, events = [] \<rparr>"
  have p: "snd (snd (prepare_activity ?ag ?rec)) = None" by code_simp
  obtain ag d where prep: "prepare_activity (the_agent ?st) (cells (heap ?st) 0) = (ag, d, None)"
    using p by (cases "prepare_activity ?ag ?rec") auto
  have c: "is_rate_limit ''429 Too Many Requests''"
          "is_snapshot_error ''Ref not found in the current page snapshot''"
          "\<not> is_rate_limit ''Ref not found in the current page snapshot''"
          "\<not> contains ''Talk'' ''Failed after 3 attempts due to snapshot errors''"
    by code_simp+
  have a: "arun ?w1 k d = Raises ''Ref not found in the current page snapshot''" for k by simp
  have b: "arun ?w2 k d = Raises ''429 Too Many Requests''" for k by simp
  obtain res st' where run: "submit_activity ?w1 0 ?st = (res, st')"
    by (cases "submit_activity ?w1 0 ?st")
  have "res = Inl (Exception ''Failed after 3 attempts due to snapshot errors'')"
    using snapshot_exhausted[OF prep a _ a _ a c(3) c(2) run] c by blast
  then have 1: "fst (submit_activity ?w1 0 ?st)
                 = Inl (Exception ''Failed after 3 attempts due to snapshot errors'')"
    using run by simp
  have 2: "fst (submit_activity ?w2 0 ?st) = Inr None"
    using submit_activity_rate_limit_exhausted[OF prep b _ b _ b c(1)] c(1) by blast
  show ?thesis using 1 c(4) 2 by blast
qed

lemma prepare_activity_again:
  assumes "prepare_activity ag0 d0 = (ag, d, err)"
  shows "prepare_activity ag d0 = (ag, d, err)"
proof -
  let ?topts = "case tech_options_cached ag0 of None \<Rightarrow> get_fallback_tech_options | Some t \<Rightarrow> t"
  have ag: "ag = ag0\<lparr> tech_options_cached := Some ?topts \<rparr>"
    using assms by (auto simp: prepare_activity_def Let_def split: sum.splits if_splits)
  have "prepare_activity (ag0\<lparr> tech_options_cached := Some ?topts \<rparr>) d0 = prepare_activity ag0 d0"
    by (simp add: prepare_activity_def Let_def)
  then show ?thesis using assms ag by simp
qed

lemma submit_activity_fatal:
  assumes prep: "prepare_activity (the_agent st) (cells (heap st) r) = (ag, d, None)"
      and fatal: "arun w (n_arun st) d = Raises m" "\<not> is_rate_limit m" "\<not> is_snapshot_error m"
  shows "submit_activity w r st
           = (Inl (ExecutorError m),
              st\<lparr> the_agent := ag,
                   heap := (heap st)\<lparr> next_free := Suc (next_free (heap st)),
                                       cells := (cells (heap st))(next_free (heap st) := d) \<rparr>,
                   n_arun := Suc (n_arun st),
                   events := events st @ [ExecutorCall] \<rparr>)"
proof -
  let ?st0 = "st\<lparr> the_agent := ag,
                  heap := (heap st)\<lparr> next_free := Suc (next_free (heap st)),
                                      cells := (cells (heap st))(next_free (heap st) := d) \<rparr> \<rparr>"
  have r: "arun w (n_arun ?st0) d = Raises m" using fatal(1) by simp
  have "submit_activity w r st = attempts w d (Suc (Suc (Suc 0))) 0 ?st0"
    using submit_activity_prepared[OF prep] by (simp only: max_attempts_Suc)
  also have "\<dots> = (Inl (ExecutorError m),
                     ?st0\<lparr> n_arun := Suc (n_arun ?st0), events := events ?st0 @ [ExecutorCall] \<rparr>)"
    by (rule attempts_fatal[OF r fatal(2,3)])
  finally show ?thesis by simp
qed

lemma submit_activity_returns:
  assumes prep: "prepare_activity (the_agent st) (cells (heap st) r) = (ag, d, None)"
      and ret: "arun w (n_arun st) d = Returns c"
  shows "submit_activity w r st
           = (Inr c,
              st\<lparr> the_agent := ag,
                   heap := (heap st)\<lparr> next_free := Suc (next_free (heap st)),
                                       cells := (cells (heap st))(next_free (heap st) := d) \<rparr>,
                   n_arun := Suc (n_arun st),
                   events := events st @ [ExecutorCall] \<rparr>)"
proof -
  let ?st0 = "st\<lparr> the_agent := ag,
                  heap := (heap st)\<lparr> next_free := Suc (next_free (heap st)),
                                      cells := (cells (heap st))(next_free (heap st) := d) \<rparr> \<rparr>"
  have r: "arun w (n_arun ?st0) d = Returns c" using ret by simp
  have "submit_activity w r st = attempts w d (Suc (Suc (Suc 0))) 0 ?st0"
    using submit_activity_prepared[OF prep] by (simp only: max_attempts_Suc)
  also have "\<dots> = (Inr c, ?st0\<lparr> n_arun := Suc (n_arun ?st0), events := events ?st0 @ [ExecutorCall] \<rparr>)"
    by (rule attempts_returns[OF r])
  finally show ?thesis by simp
qed

text \<open>
  What a round of the orchestrator leaves unchanged: the agent up to its rate-limit
  state, and so the outcome of the preparation of the same record.
\<close>

lemma agent_rate_limit_self: "\<exists>b. ag = ag\<lparr> rate_limit := b \<rparr>"
  by (rule exI[of _ "rate_limit ag"]) simp

lemma next_backoff_agent:
  "\<exists>b. the_agent (snd (next_backoff w st)) = (the_agent st)\<lparr> rate_limit := b \<rparr>"
proof -
  have "the_agent (snd (next_backoff w st))
          = (the_agent st)\<lparr> rate_limit := snd (compute_backoff (rate_limit (the_agent st))
                                           (time_now w (n_backoff st)) (random_draw w (n_backoff st))) \<rparr>"
    by (simp add: next_backoff_def split_beta Let_def)
  then show ?thesis by blast
qed

lemma attempts_agent:
  "\<exists>b. the_agent (snd (attempts w d n attempt st)) = (the_agent st)\<lparr> rate_limit := b \<rparr>"
proof (induction n arbitrary: attempt st)
  case 0
  show ?case unfolding attempts.simps snd_conv by (rule agent_rate_limit_self)
next
  case (Suc n)
  let ?st1 = "st\<lparr> n_arun := Suc (n_arun st), events := events st @ [ExecutorCall] \<rparr>"
  have same: "\<exists>b. the_agent ?st1 = (the_agent st)\<lparr> rate_limit := b \<rparr>"
    using agent_rate_limit_self[of "the_agent st"] by simp
  show ?case
  proof (cases "arun w (n_arun st) d")
    case (Returns c)
    then have "snd (attempts w d (Suc n) attempt st) = ?st1" by (simp add: Let_def)
    then show ?thesis using same by simp
  next
    case (Raises m)
    show ?thesis
    proof (cases "is_rate_limit m")
      case True
      let ?st2 = "snd (next_backoff w ?st1)"
      let ?st3 = "?st2\<lparr> events := events ?st2 @ [Sleep (fst (next_backoff w ?st1)), Snapshot] \<rparr>"
      have step: "attempts w d (Suc n) attempt st = attempts w d n (Suc attempt) ?st3"
        using Raises True by (simp add: Let_def split_beta)
      obtain b1 where b1: "the_agent ?st3 = (the_agent st)\<lparr> rate_limit := b1 \<rparr>"
        using next_backoff_agent[of w ?st1] by auto
      obtain b2 where "the_agent (snd (attempts w d n (Suc attempt) ?st3))
                         = (the_agent ?st3)\<lparr> rate_limit := b2 \<rparr>"
        using Suc.IH[of "Suc attempt" ?st3] by blast
      then have "the_agent (snd (attempts w d (Suc n) attempt st))
                   = (the_agent st)\<lparr> rate_limit := b2 \<rparr>"
        unfolding step b1 by simp
      then show ?thesis by blast
    next
      case False
      show ?thesis
      proof (cases "is_snapshot_error m \<and> attempt < max_attempts - 1")
        case True
        let ?st3 = "?st1\<lparr> events := events ?st1 @ [Snapshot] \<rparr>"
        have step: "attempts w d (Suc n) attempt st = attempts w d n (Suc attempt) ?st3"
          using Raises False True by (simp add: Let_def)
        obtain b2 where "the_agent (snd (attempts w d n (Suc attempt) ?st3))
                           = (the_agent ?st3)\<lparr> rate_limit := b2 \<rparr>"
          using Suc.IH[of "Suc attempt" ?st3] by blast
        then have "the_agent (snd (attempts w d (Suc n) attempt st))
                     = (the_agent st)\<lparr> rate_limit := b2 \<rparr>"
          unfolding step by simp
        then show ?thesis by blast
      next
        case stop: False
        have "snd (attempts w d (Suc n) attempt st) = ?st1"
          using Raises False stop by (auto simp: Let_def)
        then show ?thesis using same by simp
      qed
    qed
  qed
qed

lemma attempts_n_arun_mono: "n_arun st \<le> n_arun (snd (attempts w d n attempt st))"
proof (induction n arbitrary: attempt st)
  case 0
  then show ?case by simp
next
  case (Suc n)
  let ?st1 = "st\<lparr> n_arun := Suc (n_arun st), events := events st @ [ExecutorCall] \<rparr>"
  let ?st2 = "snd (next_backoff w ?st1)"
  let ?st3 = "?st2\<lparr> events := events ?st2 @ [Sleep (fst (next_backoff w ?st1)), Snapshot] \<rparr>"
  let ?st4 = "?st1\<lparr> events := events ?st1 @ [Snapshot] \<rparr>"
  have a: "n_arun st \<le> n_arun (snd (attempts w d n (Suc attempt) ?st3))"
    using Suc.IH[of ?st3 "Suc attempt"] by (simp add: next_backoff_n_arun)
  have b: "n_arun st \<le> n_arun (snd (attempts w d n (Suc attempt) ?st4))"
    using Suc.IH[of ?st4 "Suc attempt"] by simp
  show ?case
    using a b by (auto simp: Let_def split_beta split: exec_result.splits)
qed

lemma attempts_n_arun_Suc:
  "Suc (n_arun st) \<le> n_arun (snd (attempts w d (Suc n) attempt st))"
proof -
  let ?st1 = "st\<lparr> n_arun := Suc (n_arun st), events := events st @ [ExecutorCall] \<rparr>"
  let ?st2 = "snd (next_backoff w ?st1)"
  let ?st3 = "?st2\<lparr> events := events ?st2 @ [Sleep (fst (next_backoff w ?st1)), Snapshot] \<rparr>"
  let ?st4 = "?st1\<lparr> events := events ?st1 @ [Snapshot] \<rparr>"
  have a: "Suc (n_arun st) \<le> n_arun (snd (attempts w d n (Suc attempt) ?st3))"
    using attempts_n_arun_mono[of ?st3 w d n "Suc attempt"] by (simp add: next_backoff_n_arun)
  have b: "Suc (n_arun st) \<le> n_arun (snd (attempts w d n (Suc attempt) ?st4))"
    using attempts_n_arun_mono[of ?st4 w d n "Suc attempt"] by simp
  show ?thesis
    using a b by (auto simp: Let_def split_beta split: exec_result.splits)
qed

lemma prepare_activity_agent:
  assumes "prepare_activity ag0 d0 = (ag, d, err)"
  shows "ag = ag0\<lparr> tech_options_cached :=
                     Some (case tech_options_cached ag0 of None \<Rightarrow> get_fallback_tech_options
                           | Some t \<Rightarrow> t) \<rparr>"
  using assms by (auto simp: prepare_activity_def Let_def split: sum.splits if_splits)

lemma prepare_activity_rate_limit:
  assumes "prepare_activity ag0 d0 = (ag, d, err)"
  shows "prepare_activity (ag0\<lparr> rate_limit := b \<rparr>) d0 = (ag\<lparr> rate_limit := b \<rparr>, d, err)"
  using assms by (auto simp: prepare_activity_def Let_def split: sum.splits if_splits)

text \<open>
  After a call of \<^verbatim>\<open>submit_activity\<close> whose preparation raised nothing, whatever the
  call returned or raised: the caller's record is where it was, its preparation gives
  the same working copy again, and the executor has been invoked at least once.
\<close>

lemma submit_activity_ready:
  assumes valid: "r < next_free (heap s)"
      and prep: "prepare_activity (the_agent s) (cells (heap s) r) = (ag, d, None)"
  shows "\<exists>ag'. r < next_free (heap (snd (submit_activity w r s)))
              \<and> prepare_activity (the_agent (snd (submit_activity w r s)))
                   (cells (heap (snd (submit_activity w r s))) r) = (ag', d, None)
              \<and> fast_mode (the_agent (snd (submit_activity w r s))) = fast_mode (the_agent s)
              \<and> Suc (n_arun s) \<le> n_arun (snd (submit_activity w r s))"
proof -
  let ?st0 = "s\<lparr> the_agent := ag,
                 heap := (heap s)\<lparr> next_free := Suc (next_free (heap s)),
                                    cells := (cells (heap s))(next_free (heap s) := d) \<rparr> \<rparr>"
  let ?s' = "snd (submit_activity w r s)"
  have sub: "submit_activity w r s = attempts w d (Suc (Suc (Suc 0))) 0 ?st0"
    using submit_activity_prepared[OF prep] by (simp only: max_attempts_Suc)
  have h: "heap ?s' = heap ?st0" unfolding sub by (rule attempts_heap)
  obtain b where b: "the_agent ?s' = ag\<lparr> rate_limit := b \<rparr>"
    using attempts_agent[of w d "Suc (Suc (Suc 0))" 0 ?st0] unfolding sub by auto
  have n: "Suc (n_arun s) \<le> n_arun ?s'"
    using attempts_n_arun_Suc[of ?st0 w d "Suc (Suc 0)" 0] unfolding sub by simp
  have v: "r < next_free (heap ?s')" unfolding h using valid by simp
  have c: "cells (heap ?s') r = cells (heap s) r" unfolding h using valid by simp
  have "prepare_activity ag (cells (heap s) r) = (ag, d, None)"
    using prepare_activity_again[OF prep] .
  then have p: "prepare_activity (the_agent ?s') (cells (heap ?s') r) = (ag\<lparr> rate_limit := b \<rparr>, d, None)"
    unfolding b c by (rule prepare_activity_rate_limit)
  have "fast_mode ag = fast_mode (the_agent s)"
    by (subst prepare_activity_agent[OF prep]) simp
  then have f: "fast_mode (the_agent ?s') = fast_mode (the_agent s)" unfolding b by simp
  show ?thesis using v p f n by blast
qed

text \<open>The pause of the orchestrator changes the rate-limit state and the log only.\<close>

lemma sleep_before_retry_ready:
  assumes valid: "r < next_free (heap s)"
      and prep: "prepare_activity (the_agent s) (cells (heap s) r) = (ag, d, None)"
  shows "\<exists>ag'. r < next_free (heap (sleep_before_retry w msg s))
              \<and> prepare_activity (the_agent (sleep_before_retry w msg s))
                   (cells (heap (sleep_before_retry w msg s)) r) = (ag', d, None)
              \<and> fast_mode (the_agent (sleep_before_retry w msg s)) = fast_mode (the_agent s)
              \<and> n_arun (sleep_before_retry w msg s) = n_arun s"
proof -
  let ?s' = "sleep_before_retry w msg s"
  have h: "heap ?s' = heap s"
    by (simp add: sleep_before_retry_def Let_def split_beta next_backoff_frame)
  have n: "n_arun ?s' = n_arun s"
    by (simp add: sleep_before_retry_def Let_def split_beta next_backoff_frame)
  have "\<exists>b. the_agent ?s' = (the_agent s)\<lparr> rate_limit := b \<rparr>"
  proof (cases "\<not> (contains ''snapshot'' (lower msg) \<or> contains ''ref'' (lower msg))
                \<and> (contains ''rate'' (lower msg) \<or> contains ''429'' msg)")
    case True
    then have "the_agent ?s' = the_agent (snd (next_backoff w s))"
      by (simp add: sleep_before_retry_def Let_def split_beta)
    then show ?thesis using next_backoff_agent[of w s] by simp
  next
    case False
    then have "the_agent ?s' = the_agent s"
      by (auto simp: sleep_before_retry_def Let_def split_beta)
    then show ?thesis using agent_rate_limit_self[of "the_agent s"] by simp
  qed
  then obtain b where b: "the_agent ?s' = (the_agent s)\<lparr> rate_limit := b \<rparr>" by blast
  have p: "prepare_activity (the_agent ?s') (cells (heap ?s') r)
             = (ag\<lparr> rate_limit := b \<rparr>, d, None)"
    unfolding b h using prep by (rule prepare_activity_rate_limit)
  have f: "fast_mode (the_agent ?s') = fast_mode (the_agent s)" unfolding b by simp
  show ?thesis using valid h p f n by auto
qed

text \<open>The state in which the orchestrator calls again after a first round that failed
  with an error of the third kind.\<close>

lemma second_round_ready:
  assumes valid: "r < next_free (heap st)"
      and prep: "prepare_activity (the_agent st) (cells (heap st) r) = (ag, d, None)"
      and fatal: "arun w (n_arun st) d = Raises m" "\<not> is_rate_limit m" "\<not> is_snapshot_error m"
  shows "\<exists>ag'. r < next_free (heap (sleep_before_retry w m (snd (submit_activity w r st))))
              \<and> prepare_activity (the_agent (sleep_before_retry w m (snd (submit_activity w r st))))
                   (cells (heap (sleep_before_retry w m (snd (submit_activity w r st)))) r)
                  = (ag', d, None)
              \<and> fast_mode (the_agent (sleep_before_retry w m (snd (submit_activity w r st))))
                  = fast_mode (the_agent st)
              \<and> n_arun (sleep_before_retry w m (snd (submit_activity w r st))) = Suc (n_arun st)"
proof -
  let ?s0 = "snd (submit_activity w r st)"
  obtain ag0 where s0: "r < next_free (heap ?s0)"
      "prepare_activity (the_agent ?s0) (cells (heap ?s0) r) = (ag0, d, None)"
      "fast_mode (the_agent ?s0) = fast_mode (the_agent st)"
    using submit_activity_ready[OF valid prep, of w] by blast
  have n0: "n_arun ?s0 = Suc (n_arun st)"
    using submit_activity_fatal[OF prep fatal] by simp
  show ?thesis
    using sleep_before_retry_ready[OF s0(1,2), of w m] s0(3) n0 by auto
qed

lemma max_activity_retries_Suc: "max_activity_retries = Suc (Suc (Suc 0))"
  by (simp add: max_activity_retries_def)

text \<open>The three rounds of the orchestrator after a first round that failed with an
  error of the third kind.\<close>

lemma rounds_after_fatal:
  assumes valid: "r < next_free (heap st)"
      and prep: "prepare_activity (the_agent st) (cells (heap st) r) = (ag, d, None)"
      and fatal: "arun w (n_arun st) d = Raises m" "\<not> is_rate_limit m" "\<not> is_snapshot_error m"
  shows "fst (submit_activity w r st) = Inl (ExecutorError m)
         \<and> n_arun (snd (submit_activity w r st)) = n_arun st + 1
         \<and> (\<forall>s1 res2 s2.
              s1 = sleep_before_retry w m (snd (submit_activity w r st))
              \<and> submit_activity w r s1 = (res2, s2) \<longrightarrow>
                n_arun st + 2 \<le> n_arun s2
              \<and> (\<forall>c. res2 = Inr c \<longrightarrow> process_activity w interactive r st = (Processed, s2))
              \<and> (\<forall>e2 res3 s3.
                   res2 = Inl e2
                   \<and> submit_activity w r (sleep_before_retry w (exn_message e2) s2) = (res3, s3) \<longrightarrow>
                     n_arun st + 3 \<le> n_arun s3
                   \<and> (\<forall>c. res3 = Inr c \<longrightarrow>
                          process_activity w interactive r st = (Processed, s3))
                   \<and> (\<forall>e3. res3 = Inl e3 \<longrightarrow>
                          process_activity w interactive r st
                            = (if interactive \<and> \<not> fast_mode (the_agent st) \<and> \<not> answers_yes w
                               then Stopped else Failed, s3))))
         \<and> fst (process_activity w interactive r st) \<noteq> NotAttempted
         \<and> n_arun st + 2 \<le> n_arun (snd (process_activity w interactive r st))
         \<and> (fst (process_activity w interactive r st) \<noteq> Processed \<longrightarrow>
              n_arun st + 3 \<le> n_arun (snd (process_activity w interactive r st)))"
proof -
  let ?fail = "if interactive \<and> \<not> fast_mode (the_agent st) \<and> \<not> answers_yes w
               then Stopped else Failed"
  obtain s0 where sub1: "submit_activity w r st = (Inl (ExecutorError m), s0)"
    using submit_activity_fatal[OF prep fatal] by simp
  have s0_eq: "snd (submit_activity w r st) = s0" using sub1 by simp
  let ?s1 = "sleep_before_retry w m s0"
  have one: "fst (submit_activity w r st) = Inl (ExecutorError m)
             \<and> n_arun (snd (submit_activity w r st)) = n_arun st + 1"
    using submit_activity_fatal[OF prep fatal] by simp
  obtain ag1 where s1: "r < next_free (heap ?s1)"
      "prepare_activity (the_agent ?s1) (cells (heap ?s1) r) = (ag1, d, None)"
      "fast_mode (the_agent ?s1) = fast_mode (the_agent st)"
      "n_arun ?s1 = Suc (n_arun st)"
    using second_round_ready[OF valid prep fatal] unfolding s0_eq by blast
  have p1: "process_activity w interactive r st
              = activity_rounds w interactive r (Suc (Suc 0)) (Suc 0) ?s1"
    unfolding process_activity_def max_activity_retries_Suc
    by (subst activity_rounds.simps(2))
       (simp add: sub1 max_activity_retries_def del: activity_rounds.simps)
  obtain res2 s2 where sub2: "submit_activity w r ?s1 = (res2, s2)"
    by (cases "submit_activity w r ?s1")
  have s2_eq: "s2 = snd (submit_activity w r ?s1)" using sub2 by simp
  obtain ag2 where s2: "r < next_free (heap s2)"
      "prepare_activity (the_agent s2) (cells (heap s2) r) = (ag2, d, None)"
      "fast_mode (the_agent s2) = fast_mode (the_agent st)"
      "Suc (n_arun ?s1) \<le> n_arun s2"
    using submit_activity_ready[OF s1(1,2), of w] s1(3) unfolding s2_eq by auto
  have n2: "n_arun st + 2 \<le> n_arun s2" using s2(4) s1(4) by simp
  have ok2: "process_activity w interactive r st = (Processed, s2)" if "res2 = Inr c" for c
    unfolding p1
    by (subst activity_rounds.simps(2)) (simp add: sub2 that del: activity_rounds.simps)
  have third: "n_arun st + 3 \<le> n_arun s3
               \<and> (\<forall>c. res3 = Inr c \<longrightarrow> process_activity w interactive r st = (Processed, s3))
               \<and> (\<forall>e3. res3 = Inl e3 \<longrightarrow> process_activity w interactive r st = (?fail, s3))"
    if r2: "res2 = Inl e2"
      and sub3: "submit_activity w r (sleep_before_retry w (exn_message e2) s2) = (res3, s3)"
    for e2 res3 s3
  proof -
    let ?s2' = "sleep_before_retry w (exn_message e2) s2"
    obtain ag2' where s2': "r < next_free (heap ?s2')"
        "prepare_activity (the_agent ?s2') (cells (heap ?s2') r) = (ag2', d, None)"
        "fast_mode (the_agent ?s2') = fast_mode (the_agent st)"
        "n_arun ?s2' = n_arun s2"
      using sleep_before_retry_ready[OF s2(1,2), of w "exn_message e2"] s2(3) by auto
    have s3_eq: "s3 = snd (submit_activity w r ?s2')" using sub3 by simp
    obtain ag3 where s3: "fast_mode (the_agent s3) = fast_mode (the_agent st)"
        "Suc (n_arun ?s2') \<le> n_arun s3"
      using submit_activity_ready[OF s2'(1,2), of w] s2'(3) unfolding s3_eq by auto
    have n3: "n_arun st + 3 \<le> n_arun s3" using s3(2) s2'(4) n2 by simp
    have p2: "process_activity w interactive r st
                = activity_rounds w interactive r (Suc 0) (Suc (Suc 0)) ?s2'"
      unfolding p1
      by (subst activity_rounds.simps(2))
         (simp add: sub2 r2 max_activity_retries_def del: activity_rounds.simps)
    have a: "process_activity w interactive r st = (Processed, s3)" if "res3 = Inr c" for c
      unfolding p2
      by (subst activity_rounds.simps(2)) (simp add: sub3 that del: activity_rounds.simps)
    have b: "process_activity w interactive r st = (?fail, s3)" if "res3 = Inl e3" for e3
      unfolding p2
      by (subst activity_rounds.simps(2))
         (simp add: sub3 that s3(1) max_activity_retries_def del: activity_rounds.simps)
    show ?thesis using n3 a b by blast
  qed
  have chain: "\<forall>s1 res2 s2.
              s1 = sleep_before_retry w m s0
              \<and> submit_activity w r s1 = (res2, s2) \<longrightarrow>
                n_arun st + 2 \<le> n_arun s2
              \<and> (\<forall>c. res2 = Inr c \<longrightarrow> process_activity w interactive r st = (Processed, s2))
              \<and> (\<forall>e2 res3 s3.
                   res2 = Inl e2
                   \<and> submit_activity w r (sleep_before_retry w (exn_message e2) s2) = (res3, s3) \<longrightarrow>
                     n_arun st + 3 \<le> n_arun s3
                   \<and> (\<forall>c. res3 = Inr c \<longrightarrow>
                          process_activity w interactive r st = (Processed, s3))
                   \<and> (\<forall>e3. res3 = Inl e3 \<longrightarrow>
                          process_activity w interactive r st = (?fail, s3)))"
  proof (intro allI impI, elim conjE)
    fix t1 q2 t2
    assume t1: "t1 = sleep_before_retry w m s0"
       and q: "submit_activity w r t1 = (q2, t2)"
    have eq: "q2 = res2" "t2 = s2" using q sub2 unfolding t1 by simp_all
    show "n_arun st + 2 \<le> n_arun t2
          \<and> (\<forall>c. q2 = Inr c \<longrightarrow> process_activity w interactive r st = (Processed, t2))
          \<and> (\<forall>e2 res3 s3.
               q2 = Inl e2
               \<and> submit_activity w r (sleep_before_retry w (exn_message e2) t2) = (res3, s3) \<longrightarrow>
                 n_arun st + 3 \<le> n_arun s3
               \<and> (\<forall>c. res3 = Inr c \<longrightarrow> process_activity w interactive r st = (Processed, s3))
               \<and> (\<forall>e3. res3 = Inl e3 \<longrightarrow> process_activity w interactive r st = (?fail, s3)))"
      unfolding eq using n2 ok2 third by blast
  qed
  have summary: "fst (process_activity w interactive r st) \<noteq> NotAttempted
         \<and> n_arun st + 2 \<le> n_arun (snd (process_activity w interactive r st))
         \<and> (fst (process_activity w interactive r st) \<noteq> Processed \<longrightarrow>
              n_arun st + 3 \<le> n_arun (snd (process_activity w interactive r st)))"
  proof (cases res2)
    case (Inr c)
    show ?thesis using ok2[OF Inr] n2 by simp
  next
    case (Inl e2)
    obtain res3 s3 where sub3:
        "submit_activity w r (sleep_before_retry w (exn_message e2) s2) = (res3, s3)"
      by (cases "submit_activity w r (sleep_before_retry w (exn_message e2) s2)")
    note t = third[OF Inl sub3]
    show ?thesis
    proof (cases res3)
      case (Inr c)
      then have "process_activity w interactive r st = (Processed, s3)" using t by blast
      then show ?thesis using t by simp
    next
      case (Inl e3)
      then have "process_activity w interactive r st = (?fail, s3)" using t by blast
      then show ?thesis using t by simp
    qed
  qed
  show ?thesis unfolding s0_eq using one[unfolded s0_eq] chain summary by blast
qed

text \<open>An executor that fails with the same error of the third kind at every invocation.\<close>

lemma fatal_three_times:
  assumes valid: "r < next_free (heap st)"
      and prep: "prepare_activity (the_agent st) (cells (heap st) r) = (ag, d, None)"
      and always: "\<And>k. arun w k d = Raises m"
      and kind: "\<not> is_rate_limit m" "\<not> is_snapshot_error m"
  shows "fst (process_activity w interactive r st)
           = (if interactive \<and> \<not> fast_mode (the_agent st) \<and> \<not> answers_yes w
              then Stopped else Failed)
         \<and> n_arun (snd (process_activity w interactive r st)) = n_arun st + 3"
proof -
  note t = rounds_after_fatal[OF valid prep always kind, of interactive]
  define s1 where "s1 = sleep_before_retry w m (snd (submit_activity w r st))"
  obtain ag1 where r1: "r < next_free (heap s1)"
      "prepare_activity (the_agent s1) (cells (heap s1) r) = (ag1, d, None)"
      "n_arun s1 = Suc (n_arun st)"
    using second_round_ready[OF valid prep always kind] unfolding s1_def by blast
  obtain s2 where sub2: "submit_activity w r s1 = (Inl (ExecutorError m), s2)"
      and n2: "n_arun s2 = Suc (n_arun s1)"
    using submit_activity_fatal[OF r1(2) always kind] by simp
  have s2_eq: "snd (submit_activity w r s1) = s2" using sub2 by simp
  obtain ag2 where r2: "r < next_free (heap s2)"
      "prepare_activity (the_agent s2) (cells (heap s2) r) = (ag2, d, None)"
    using submit_activity_ready[OF r1(1,2), of w] unfolding s2_eq by blast
  define s2' where "s2' = sleep_before_retry w m s2"
  obtain ag2' where r2': "prepare_activity (the_agent s2') (cells (heap s2') r) = (ag2', d, None)"
      "n_arun s2' = n_arun s2"
    using sleep_before_retry_ready[OF r2, of w m] unfolding s2'_def by blast
  obtain s3 where sub3: "submit_activity w r s2' = (Inl (ExecutorError m), s3)"
      and n3: "n_arun s3 = Suc (n_arun s2')"
    using submit_activity_fatal[OF r2'(1) always kind] by simp
  have sub3': "submit_activity w r (sleep_before_retry w (exn_message (ExecutorError m)) s2)
                 = (Inl (ExecutorError m), s3)"
    using sub3 unfolding s2'_def by simp
  have "process_activity w interactive r st
          = (if interactive \<and> \<not> fast_mode (the_agent st) \<and> \<not> answers_yes w
             then Stopped else Failed, s3)"
    using t[THEN conjunct2, THEN conjunct2, THEN conjunct1, THEN spec, THEN spec, THEN spec,
            THEN mp, OF conjI, OF s1_def sub2,
            THEN conjunct2, THEN conjunct2, THEN spec, THEN spec, THEN spec,
            THEN mp, OF conjI, OF refl sub3',
            THEN conjunct2, THEN conjunct2, THEN spec, THEN mp, OF refl] .
  then show ?thesis using n3 r2'(2) n2 r1(3) by simp
qed

text \<open>
  Claim C3, as amended. When the preparation raises nothing and the first attempt fails
  with an error that is neither a rate-limit nor a snapshot error, \<^verbatim>\<open>submit_activity\<close>
  raises that error again after exactly one invocation of the executor. The record is
  not marked as failed then: the retry loop of the orchestrator sleeps and calls
  \<^verbatim>\<open>submit_activity\<close> again, in the state \<open>s1\<close>. When that second call returns the
  record is marked as processed. When it raises, the loop sleeps and calls a third
  time: the record is marked as processed when the third call returns, and as failed
  (or the run is stopped by the operator) when it raises, whatever the two later calls
  raise. So the record is never marked as failed after one invocation of the executor:
  there are at least two invocations in every case and at least three unless the record
  is marked as processed.
\<close>

theorem fatal_error_propagates:
  assumes valid: "r < next_free (heap st)"
      and prep: "prepare_activity (the_agent st) (cells (heap st) r) = (ag, d, None)"
      and fatal: "arun w (n_arun st) d = Raises m" "\<not> is_rate_limit m" "\<not> is_snapshot_error m"
  shows "fst (submit_activity w r st) = Inl (ExecutorError m)
         \<and> n_arun (snd (submit_activity w r st)) = n_arun st + 1
         \<and> (\<forall>s1 res2 s2.
              s1 = sleep_before_retry w m (snd (submit_activity w r st))
              \<and> submit_activity w r s1 = (res2, s2) \<longrightarrow>
                n_arun st + 2 \<le> n_arun s2
              \<and> (\<forall>c. res2 = Inr c \<longrightarrow> process_activity w interactive r st = (Processed, s2))
              \<and> (\<forall>e2 res3 s3.
                   res2 = Inl e2
                   \<and> submit_activity w r (sleep_before_retry w (exn_message e2) s2) = (res3, s3) \<longrightarrow>
                     n_arun st + 3 \<le> n_arun s3
                   \<and> (\<forall>c. res3 = Inr c \<longrightarrow>
                          process_activity w interactive r st = (Processed, s3))
                   \<and> (\<forall>e3. res3 = Inl e3 \<longrightarrow>
                          process_activity w interactive r st
                            = (if interactive \<and> \<not> fast_mode (the_agent st) \<and> \<not> answers_yes w
                               then Stopped else Failed, s3))))
         \<and> fst (process_activity w interactive r st) \<noteq> NotAttempted
         \<and> n_arun st + 2 \<le> n_arun (snd (process_activity w interactive r st))
         \<and> (fst (process_activity w interactive r st) \<noteq> Processed \<longrightarrow>
              n_arun st + 3 \<le> n_arun (snd (process_activity w interactive r st)))"
  by (rule rounds_after_fatal[OF assms])

theorem fatal_error_propagates_witness:
  "fst (submit_activity
      \<lparr> arun = (\<lambda>k d. if k = 1 then Returns (Some ''saved'') else Raises ''Invalid form data''),
        time_now = (\<lambda>k. 0), random_draw = (\<lambda>k. 0), answers_yes = True \<rparr> 0
      \<lparr> the_agent = \<lparr> fast_mode = True, rate_limit = init_backoff True,
                      tech_options_cached = Some \<lparr>primary = [''Azure''], additional = [''Python'']\<rparr>,
                      target_audience_options = None \<rparr>,
        heap = \<lparr> cells = (\<lambda>a. [(''Category'', PStr ''Blog''), (''Main Technology'', PStr ''Azure''),
                               (''Title'', PStr ''Talk''),
                               (''Description'', PStr ''About Azure.''),
                               (''Internal Notes'', PStr ''A talk about Azure.''),
                               (''URL'', PStr ''https://example.org/t''),
                               (''Audience'', PList [PStr ''Developer'']),
                               (''Date'', PStr ''2024-01-01''), (''Quantity'', PInt 1)]),
                 next_free = 1 \<rparr>,
        n_arun = 0, n_backoff = 0, events = [] \<rparr>)
     = Inl (ExecutorError ''Invalid form data'')
   \<and> fst (process_activity
      \<lparr> arun = (\<lambda>k d. if k = 1 then Returns (Some ''saved'') else Raises ''Invalid form data''),
        time_now = (\<lambda>k. 0), random_draw = (\<lambda>k. 0), answers_yes = True \<rparr> False 0
      \<lparr> the_agent = \<lparr> fast_mode = True, rate_limit = init_backoff True,
                      tech_options_cached = Some \<lparr>primary = [''Azure''], additional = [''Python'']\<rparr>,
                      target_audience_options = None \<rparr>,
        heap = \<lparr> cells = (\<lambda>a. [(''Category'', PStr ''Blog''), (''Main Technology'', PStr ''Azure''),
                               (''Title'', PStr ''Talk''),
                               (''Description'', PStr ''About Azure.''),
                               (''Internal Notes'', PStr ''A talk about Azure.''),
                               (''URL'', PStr ''https://example.org/t''),
                               (''Audience'', PList [PStr ''Developer'']),
                               (''Date'', PStr ''2024-01-01''), (''Quantity'', PInt 1)]),
                 next_free = 1 \<rparr>,
        n_arun = 0, n_backoff = 0, events = [] \<rparr>)
     = Processed
   \<and> n_arun (snd (process_activity
      \<lparr> arun = (\<lambda>k d. if k = 1 then Returns (Some ''saved'') else Raises ''Invalid form data''),
        time_now = (\<lambda>k. 0), random_draw = (\<lambda>k. 0), answers_yes = True \<rparr> False 0
      \<lparr> the_agent = \<lparr> fast_mode = True, rate_limit = init_backoff True,
                      tech_options_cached = Some \<lparr>primary = [''Azure''], additional = [''Python'']\<rparr>,
                      target_audience_options = None \<rparr>,
        heap = \<lparr> cells = (\<lambda>a. [(''Category'', PStr ''Blog''), (''Main Technology'', PStr ''Azure''),
                               (''Title'', PStr ''Talk''),
                               (''Description'', PStr ''About Azure.''),
                               (''Internal Notes'', PStr ''A talk about Azure.''),
                               (''URL'', PStr ''https://example.org/t''),
                               (''Audience'', PList [PStr ''Developer'']),
                               (''Date'', PStr ''2024-01-01''), (''Quantity'', PInt 1)]),
                 next_free = 1 \<rparr>,
        n_arun = 0, n_backoff = 0, events = [] \<rparr>))
     = 2"
proof -
  let ?w = "\<lparr> arun = (\<lambda>k d. if k = 1 then Returns (Some ''saved'') else Raises ''Invalid form data''),
        time_now = (\<lambda>k. 0), random_draw = (\<lambda>k. 0), answers_yes = True \<rparr>"
  let ?ag = "\<lparr> fast_mode = True, rate_limit = init_backoff True,
                tech_options_cached = Some \<lparr>primary = [''Azure''], additional = [''Python'']\<rparr>,
                target_audience_options = None \<rparr>"
  let ?rec = "[(''Category'', PStr ''Blog''), (''Main Technology'', PStr ''Azure''),
               (''Title'', PStr ''Talk''),
               (''Description'', PStr ''About Azure.''),
               (''Internal Notes'', PStr ''A talk about Azure.''),
               (''URL'', PStr ''https://example.org/t''),
               (''Audience'', PList [PStr ''Developer'']),
               (''Date'', PStr ''2024-01-01''), (''Quantity'', PInt 1)]"
  let ?st = "\<lparr> the_agent = ?ag, heap = \<lparr> cells = (\<lambda>a. ?rec), next_free = 1 \<rparr>,
               n_arun = 0, n_backoff = 0, events = [] \<rparr>"
  have p: "snd (snd (prepare_activity ?ag ?rec)) = None" by code_simp
  obtain ag d where prep: "prepare_activity (the_agent ?st) (cells (heap ?st) 0) = (ag, d, None)"
    using p by (cases "prepare_activity ?ag ?rec") auto
  have c: "\<not> is_rate_limit ''Invalid form data''" "\<not> is_snapshot_error ''Invalid form data''"
    by code_simp+
  have valid: "0 < next_free (heap ?st)" by simp
  have e1: "arun ?w (n_arun ?st) d = Raises ''Invalid form data''" by simp
  note t = fatal_error_propagates[OF valid prep e1 c, of False]
  define s1 where "s1 = sleep_before_retry ?w ''Invalid form data'' (snd (submit_activity ?w 0 ?st))"
  obtain ag1 where r1: "prepare_activity (the_agent s1) (cells (heap s1) 0) = (ag1, d, None)"
      "n_arun s1 = Suc (n_arun ?st)"
    using second_round_ready[OF valid prep e1 c] unfolding s1_def by blast
  have e2: "arun ?w (n_arun s1) d = Returns (Some ''saved'')" unfolding r1(2) by simp
  obtain s2 where sub2: "submit_activity ?w 0 s1 = (Inr (Some ''saved''), s2)"
      and n2: "n_arun s2 = Suc (n_arun s1)"
    using submit_activity_returns[OF r1(1) e2] by simp
  have a: "fst (submit_activity ?w 0 ?st) = Inl (ExecutorError ''Invalid form data'')"
    using t by (rule conjunct1)
  have b: "process_activity ?w False 0 ?st = (Processed, s2)"
    using t[THEN conjunct2, THEN conjunct2, THEN conjunct1, THEN spec, THEN spec, THEN spec,
            THEN mp, OF conjI, OF s1_def sub2,
            THEN conjunct2, THEN conjunct1, THEN spec, THEN mp, OF refl] .
  have b1: "fst (process_activity ?w False 0 ?st) = Processed" unfolding b by simp
  have b2: "n_arun (snd (process_activity ?w False 0 ?st)) = 2"
    unfolding b using n2 r1(2) by simp
  from a b1 b2 show ?thesis by (intro conjI)
qed

text \<open>
  Claim C3 as stated fails. The record below passes \<^verbatim>\<open>validate_activity_data\<close> and is
  its own normal form, so it reaches the retry loop. With an executor that always fails
  with \<^verbatim>\<open>Invalid form data\<close> it is marked as failed after three invocations of the
  executor, not one.
\<close>

theorem fatal_error_retried_counterexample:
  "validate_activity_data
       [(''Category'', PStr ''Blog''), (''Main Technology'', PStr ''Azure''),
        (''Title'', PStr ''Talk''),
        (''Description'', PStr ''About Azure.''),
        (''Internal Notes'', PStr ''A talk about Azure.''),
        (''URL'', PStr ''https://example.org/t''),
        (''Audience'', PList [PStr ''Developer'']),
        (''Date'', PStr ''2024-01-01''), (''Quantity'', PInt 1)] = (True, [])
   \<and> normalize_activity_keys
       [(''Category'', PStr ''Blog''), (''Main Technology'', PStr ''Azure''),
        (''Title'', PStr ''Talk''),
        (''Description'', PStr ''About Azure.''),
        (''Internal Notes'', PStr ''A talk about Azure.''),
        (''URL'', PStr ''https://example.org/t''),
        (''Audience'', PList [PStr ''Developer'']),
        (''Date'', PStr ''2024-01-01''), (''Quantity'', PInt 1)]
     = [(''Category'', PStr ''Blog''), (''Main Technology'', PStr ''Azure''),
        (''Title'', PStr ''Talk''),
        (''Description'', PStr ''About Azure.''),
        (''Internal Notes'', PStr ''A talk about Azure.''),
        (''URL'', PStr ''https://example.org/t''),
        (''Audience'', PList [PStr ''Developer'']),
        (''Date'', PStr ''2024-01-01''), (''Quantity'', PInt 1)]
   \<and> fst (process_activity
      \<lparr> arun = (\<lambda>k d. Raises ''Invalid form data''),
        time_now = (\<lambda>k. 0), random_draw = (\<lambda>k. 0), answers_yes = True \<rparr> False 0
      \<lparr> the_agent = \<lparr> fast_mode = True, rate_limit = init_backoff True,
                      tech_options_cached = Some \<lparr>primary = [''Azure''], additional = [''Python'']\<rparr>,
                      target_audience_options = None \<rparr>,
        heap = \<lparr> cells = (\<lambda>a. [(''Category'', PStr ''Blog''), (''Main Technology'', PStr ''Azure''),
                               (''Title'', PStr ''Talk''),
                               (''Description'', PStr ''About Azure.''),
                               (''Internal Notes'', PStr ''A talk about Azure.''),
                               (''URL'', PStr ''https://example.org/t''),
                               (''Audience'', PList [PStr ''Developer'']),
                               (''Date'', PStr ''2024-01-01''), (''Quantity'', PInt 1)]),
                 next_free = 1 \<rparr>,
        n_arun = 0, n_backoff = 0, events = [] \<rparr>)
     = Failed
   \<and> n_arun (snd (process_activity
      \<lparr> arun = (\<lambda>k d. Raises ''Invalid form data''),
        time_now = (\<lambda>k. 0), random_draw = (\<lambda>k. 0), answers_yes = True \<rparr> False 0
      \<lparr> the_agent = \<lparr> fast_mode = True, rate_limit = init_backoff True,
                      tech_options_cached = Some \<lparr>primary = [''Azure''], additional = [''Python'']\<rparr>,
                      target_audience_options = None \<rparr>,
        heap = \<lparr> cells = (\<lambda>a. [(''Category'', PStr ''Blog''), (''Main Technology'', PStr ''Azure''),
                               (''Title'', PStr ''Talk''),
                               (''Description'', PStr ''About Azure.''),
                               (''Internal Notes'', PStr ''A talk about Azure.''),
                               (''URL'', PStr ''https://example.org/t''),
                               (''Audience'', PList [PStr ''Developer'']),
                               (''Date'', PStr ''2024-01-01''), (''Quantity'', PInt 1)]),
                 next_free = 1 \<rparr>,
        n_arun = 0, n_backoff = 0, events = [] \<rparr>))
     = 3"
proof -
  let ?w = "\<lparr> arun = (\<lambda>k d. Raises ''Invalid form data''),
        time_now = (\<lambda>k. 0), random_draw = (\<lambda>k. 0), answers_yes = True \<rparr>"
  let ?ag = "\<lparr> fast_mode = True, rate_limit = init_backoff True,
                tech_options_cached = Some \<lparr>primary = [''Azure''], additional = [''Python'']\<rparr>,
                target_audience_options = None \<rparr>"
  let ?rec = "[(''Category'', PStr ''Blog''), (''Main Technology'', PStr ''Azure''),
               (''Title'', PStr ''Talk''),
               (''Description'', PStr ''About Azure.''),
               (''Internal Notes'', PStr ''A talk about Azure.''),
               (''URL'', PStr ''https://example.org/t''),
               (''Audience'', PList [PStr ''Developer'']),
               (''Date'', PStr ''2024-01-01''), (''Quantity'', PInt 1)]"
  let ?st = "\<lparr> the_agent = ?ag, heap = \<lparr> cells = (\<lambda>a. ?rec), next_free = 1 \<rparr>,
               n_arun = 0, n_backoff = 0, events = [] \<rparr>"
  have v: "validate_activity_data ?rec = (True, [])" by code_simp
  have nf: "normalize_activity_keys ?rec = ?rec" by code_simp
  have p: "snd (snd (prepare_activity ?ag ?rec)) = None" by code_simp
  obtain ag d where prep: "prepare_activity (the_agent ?st) (cells (heap ?st) 0) = (ag, d, None)"
    using p by (cases "prepare_activity ?ag ?rec") auto
  have c: "\<not> is_rate_limit ''Invalid form data''" "\<not> is_snapshot_error ''Invalid form data''"
    by code_simp+
  have valid: "0 < next_free (heap ?st)" by simp
  have e: "arun ?w k d = Raises ''Invalid form data''" for k by simp
  note t = fatal_three_times[OF valid prep e c, of False]
  have r1: "fst (process_activity ?w False 0 ?st) = Failed"
    using t[THEN conjunct1] by (simp del: activity_rounds.simps)
  have r2: "n_arun (snd (process_activity ?w False 0 ?st)) = 3"
    using t[THEN conjunct2] by (simp del: activity_rounds.simps)
  from v nf r1 r2 show ?thesis by (intro conjI)
qed

end
